theory Spec2Isabelle
  imports Main "HOL-Library.Sublist" "HOL-Library.Multiset"
begin

section \<open>Data model of parse.ts\<close>

text \<open>
  Strings are lists of 8-bit characters. The packet codec (the duml-packet library) is
  external: a decoded packet is represented by what parse.ts reads from it, with the
  results of its methods \<open>isValid()\<close> and \<open>toShortString()\<close> as fields, and the
  decoder \<open>Packet.fromHexString\<close> is a parameter of every function that calls it
  (\<open>None\<close> when it throws).
\<close>

datatype direction = RX | TX

record Packet =
  length_pkt :: nat
  commandType :: nat
  ackType :: nat
  sequenceID :: nat
  isValid :: bool
  toShortString :: string

record ParsedData =
  timestamp :: string
  direction :: direction
  packet :: Packet

record PacketData =
  timestamp :: string
  direction :: direction
  packet :: string

record PairedPacket =
  request :: PacketData
  response :: PacketData

record ParsedResult =
  pairedPackets :: "PairedPacket list"
  unpairedPackets :: "PacketData list"
  singularPackets :: "PacketData list"

section \<open>pairPackets\<close>

text \<open>The object literal built at each push: timestamp, direction and the short string.\<close>

definition toPacketData :: "ParsedData \<Rightarrow> PacketData" where
  "toPacketData p =
     \<lparr>PacketData.timestamp = ParsedData.timestamp p,
      PacketData.direction = ParsedData.direction p,
      PacketData.packet = toShortString (ParsedData.packet p)\<rparr>"

definition isRequest :: "ParsedData \<Rightarrow> bool" where
  "isRequest p = (commandType (ParsedData.packet p) = 0 \<and> ackType (ParsedData.packet p) \<noteq> 0)"

definition isAck :: "ParsedData \<Rightarrow> bool" where
  "isAck p = (commandType (ParsedData.packet p) = 1)"

definition isSingular :: "ParsedData \<Rightarrow> bool" where
  "isSingular p = (ackType (ParsedData.packet p) = 0)"

text \<open>
  \<open>delete a[i]\<close> leaves a hole and keeps the length: an array with holes is a list of
  options, \<open>None\<close> the hole. \<open>filter\<close> and \<open>forEach\<close> do not visit holes.
\<close>

definition matchesRequest :: "ParsedData \<Rightarrow> ParsedData \<Rightarrow> bool" where
  "matchesRequest requestPacket p =
     (sequenceID (ParsedData.packet p) = sequenceID (ParsedData.packet requestPacket)
      \<and> ParsedData.direction p \<noteq> ParsedData.direction requestPacket)"

text \<open>
  The filter callback of the matching step, as the list of (index, element) it accepts:
  \<open>matchingResponse\<close> is the element of the first entry (\<open>.at(0)\<close>), \<open>matchedIndex\<close>
  the index of the last entry (each accepted element overwrites it).
\<close>

fun matchesFrom :: "ParsedData \<Rightarrow> nat \<Rightarrow> ParsedData option list \<Rightarrow> (nat \<times> ParsedData) list" where
  "matchesFrom r i [] = []"
| "matchesFrom r i (None # as) = matchesFrom r (Suc i) as"
| "matchesFrom r i (Some p # as) =
     (if matchesRequest r p then (i, p) # matchesFrom r (Suc i) as
      else matchesFrom r (Suc i) as)"

record PairState =
  requestPackets :: "ParsedData option list"
  ackPackets :: "ParsedData option list"
  paired :: "PairedPacket list"
  unpaired :: "PacketData list"

definition pairStep :: "PairState \<Rightarrow> nat \<Rightarrow> PairState" where
  "pairStep st requestIndex =
     (case requestPackets st ! requestIndex of
        None \<Rightarrow> st
      | Some requestPacket \<Rightarrow>
          (case matchesFrom requestPacket 0 (ackPackets st) of
             [] \<Rightarrow> st\<lparr>unpaired := unpaired st @ [toPacketData requestPacket]\<rparr>
           | m # ms \<Rightarrow>
               st\<lparr>ackPackets := (ackPackets st)[fst (last (m # ms)) := None],
                  requestPackets := (requestPackets st)[requestIndex := None],
                  paired := paired st @
                    [\<lparr>request = toPacketData requestPacket,
                      response = toPacketData (snd m)\<rparr>]\<rparr>))"

definition pairLoop :: "ParsedData list \<Rightarrow> PairState" where
  "pairLoop parsedPackets =
     foldl pairStep
       \<lparr>requestPackets = map Some (filter isRequest parsedPackets),
        ackPackets = map Some (filter isAck parsedPackets),
        paired = [],
        unpaired = []\<rparr>
       [0 ..< length (filter isRequest parsedPackets)]"

text \<open>The elements a later \<open>filter\<close> still visits: the ones that are not holes.\<close>

fun present :: "'a option list \<Rightarrow> 'a list" where
  "present [] = []"
| "present (None # xs) = present xs"
| "present (Some x # xs) = x # present xs"

definition pairPackets :: "ParsedData list \<Rightarrow> ParsedResult" where
  "pairPackets parsedPackets =
     (let st = pairLoop parsedPackets in
      \<lparr>pairedPackets = paired st,
       unpairedPackets = unpaired st
         @ map toPacketData (present (ackPackets st))
         @ map toPacketData (present (requestPackets st)),
       singularPackets = map toPacketData (filter isSingular parsedPackets)\<rparr>)"


section \<open>processBuffer\<close>

text \<open>
  String operations of the source: \<open>s.startsWith(t)\<close>, \<open>s.indexOf(t)\<close> (\<open>None\<close> for -1),
  \<open>s.includes(t)\<close>, \<open>s.replace(/\s+/g, "")\<close>. \<open>s.slice(n)\<close> is \<open>drop n s\<close> and
  \<open>s.slice(0, n)\<close> is \<open>take n s\<close> (both clamp at the end of the string).
\<close>

definition startsWith :: "string \<Rightarrow> string \<Rightarrow> bool" where
  "startsWith s t = (take (length t) s = t)"

fun indexOf :: "string \<Rightarrow> string \<Rightarrow> nat option" where
  "indexOf [] t = (if t = [] then Some 0 else None)"
| "indexOf (c # s) t =
     (if startsWith (c # s) t then Some 0 else map_option Suc (indexOf s t))"

definition includes_str :: "string \<Rightarrow> string \<Rightarrow> bool" where
  "includes_str s t = (indexOf s t \<noteq> None)"

text \<open>The characters \<open>\s\<close> matches among the 8-bit ones: tab to carriage return, space, no-break space.\<close>

definition isSpace :: "char \<Rightarrow> bool" where
  "isSpace c = (c \<in> {CHR 0x09, CHR 0x0A, CHR 0x0B, CHR 0x0C, CHR 0x0D, CHR 0x20, CHR 0xA0})"

definition removeSpaces :: "string \<Rightarrow> string" where
  "removeSpaces s = filter (\<lambda>c. \<not> isSpace c) s"

datatype error =
    TypeError  \<comment> \<open>a method called on a missing column of the row\<close>
  | DecodeError  \<comment> \<open>\<open>Packet.fromHexString\<close> threw outside the \<open>try\<close>\<close>

type_synonym decoder = "string \<Rightarrow> Packet option"

text \<open>
  Line 141 to 143: the packet that is pushed, given the packet decoded from the whole
  of \<open>hexString\<close>. The second call of the decoder is outside the \<open>try\<close>.
\<close>

definition accepted :: "decoder \<Rightarrow> string \<Rightarrow> Packet \<Rightarrow> Packet option" where
  "accepted fromHexString hexString pkt =
     (if \<not> isValid pkt \<and> length_pkt pkt < length hexString * 2
      then fromHexString (take (length_pkt pkt * 2) hexString)
      else Some pkt)"

text \<open>The argument of the last \<open>updateBuffer\<close> call of an iteration.\<close>

definition leftOver :: "string \<Rightarrow> string" where
  "leftOver hexString = (if startsWith hexString ''55'' then hexString else '''')"

text \<open>
  One pass through the body of the do-while loop and its test (\<open>dir\<close>, \<open>ts\<close> and \<open>pkt\<close>
  stand for \<open>direction\<close>, \<open>timestamp\<close> and \<open>packet\<close>, which name record fields here).
  \<open>results\<close> is the array being pushed to; \<open>updated\<close> is the argument of the latest
  \<open>updateBuffer\<close> call, \<open>None\<close> while it has not been called. The pass ends the call
  (\<open>return\<close> in the \<open>catch\<close>, or the test fails), throws, or goes round again.
\<close>

datatype outcome =
    Return "ParsedData list \<times> string option"
  | Raise error
  | Again string "ParsedData list" "string option"

definition iteration ::
  "decoder \<Rightarrow> direction \<Rightarrow> string \<Rightarrow> string \<Rightarrow> ParsedData list \<Rightarrow> string option \<Rightarrow> outcome" where
  "iteration fromHexString dir ts hexString results updated =
     (case fromHexString hexString of
        None \<Rightarrow> Return (results, updated)
      | Some decoded \<Rightarrow>
          (case accepted fromHexString hexString decoded of
             None \<Rightarrow> Raise DecodeError
           | Some pkt \<Rightarrow>
               let hexString' = drop (length_pkt pkt * 2) hexString;
                   results' = results @ [\<lparr>ParsedData.timestamp = ts,
                                          ParsedData.direction = dir,
                                          ParsedData.packet = pkt\<rparr>];
                   updated' = Some (leftOver hexString')
               in if isValid pkt then Again hexString' results' updated'
                  else Return (results', updated')))"

text \<open>
  The loop need not end (a valid packet of length 0 decoded over and over): not returning
  is \<open>None\<close>.
\<close>

partial_function (option) processLoop ::
  "decoder \<Rightarrow> direction \<Rightarrow> string \<Rightarrow> string \<Rightarrow> ParsedData list \<Rightarrow> string option
     \<Rightarrow> (error + ParsedData list \<times> string option) option" where
  "processLoop fromHexString dir ts hexString results updated =
     (case iteration fromHexString dir ts hexString results updated of
        Return r \<Rightarrow> Some (Inr r)
      | Raise e \<Rightarrow> Some (Inl e)
      | Again hexString' results' updated' \<Rightarrow>
          processLoop fromHexString dir ts hexString' results' updated')"

declare processLoop.simps [code]

definition processBuffer ::
  "decoder \<Rightarrow> string \<Rightarrow> direction \<Rightarrow> string \<Rightarrow> ParsedData list
     \<Rightarrow> (error + ParsedData list \<times> string option) option" where
  "processBuffer fromHexString currentHexString dir ts results =
     processLoop fromHexString dir ts currentHexString results None"

text \<open>
  The states in which the loop of one call starts a pass: the first pass has the buffer it
  was called with, the array as it was and no \<open>updateBuffer\<close> call yet.
\<close>

inductive reached ::
  "decoder \<Rightarrow> direction \<Rightarrow> string \<Rightarrow> string \<Rightarrow> ParsedData list
     \<Rightarrow> string \<Rightarrow> ParsedData list \<Rightarrow> string option \<Rightarrow> bool"
  for fromHexString dir ts currentHexString results0 where
    firstPass: "reached fromHexString dir ts currentHexString results0 currentHexString results0 None"
  | nextPass: "reached fromHexString dir ts currentHexString results0 hexString results updated \<Longrightarrow>
           iteration fromHexString dir ts hexString results updated
             = Again hexString' results' updated' \<Longrightarrow>
           reached fromHexString dir ts currentHexString results0 hexString' results' updated'"

text \<open>
  The direction's buffer after the call: the caller assigned it the buffer it passes, and
  each \<open>updateBuffer\<close> call overwrites it.
\<close>

definition carryOver :: "string \<Rightarrow> string option \<Rightarrow> string" where
  "carryOver currentHexString updated =
     (case updated of None \<Rightarrow> currentHexString | Some leftOverBuffer \<Rightarrow> leftOverBuffer)"

section \<open>parseCSV\<close>

record ParseState =
  results :: "ParsedData list"
  rxCurrentHexString :: string
  txCurrentHexString :: string
  processed :: nat
  skipped :: nat

definition initialState :: ParseState where
  "initialState = \<lparr>results = [], rxCurrentHexString = '''', txCurrentHexString = '''',
     processed = 0, skipped = 0\<rparr>"

definition currentHexString :: "direction \<Rightarrow> ParseState \<Rightarrow> string" where
  "currentHexString d st = (case d of RX \<Rightarrow> rxCurrentHexString st | TX \<Rightarrow> txCurrentHexString st)"

definition setCurrentHexString :: "direction \<Rightarrow> string \<Rightarrow> ParseState \<Rightarrow> ParseState" where
  "setCurrentHexString d s st =
     (case d of RX \<Rightarrow> st\<lparr>rxCurrentHexString := s\<rparr> | TX \<Rightarrow> st\<lparr>txCurrentHexString := s\<rparr>)"

text \<open>
  The data handler up to the call of \<open>processBuffer\<close> (lines 47 to 93): the record is
  skipped, a method is called on a missing column, or \<open>processBuffer\<close> is called with the
  direction's buffer of the returned state, the direction and the timestamp. A row that
  reaches line 49 without a \<open>TypeError\<close> has ten columns, so its \<open>row[3]\<close> exists.
\<close>

datatype handoff =
    Skip ParseState
  | Throw error
  | Extract ParseState direction string

text \<open>
  Lines 66 to 73 (80 to 87 for TX): the direction's buffer after the chunk \<open>hexString\<close> is
  appended, \<open>None\<close> when the buffer is empty and the chunk has no \<open>55\<close> in it.
\<close>

definition accumulate :: "string \<Rightarrow> string \<Rightarrow> string option" where
  "accumulate current hexString =
     (if length current = 0
      then (case indexOf hexString ''55'' of
              None \<Rightarrow> None
            | Some i \<Rightarrow> Some (current @ drop i hexString))
      else Some (current @ hexString))"

definition receive :: "ParseState \<Rightarrow> string list \<Rightarrow> handoff" where
  "receive st row =
     (if \<not> (row \<noteq> [] \<and> row ! 0 = ''0'') then Skip st
      else if length row < 10 then Throw TypeError
      else if \<not> (includes_str (row ! 9) ''IN'' \<or> includes_str (row ! 9) ''OUT'') then Skip st
      else if length row < 11 then Throw TypeError
      else
        let ts = row ! 3;
            dir = (if includes_str (row ! 9) ''IN'' then RX else TX);
            hexString = removeSpaces (row ! 10)
        in
          if length hexString = 0 then Skip st
          else (case accumulate (currentHexString dir st) hexString of
                  None \<Rightarrow> Skip st
                | Some current' \<Rightarrow>
                    let st' = setCurrentHexString dir current' st
                    in if length (currentHexString dir st') = 0 then Skip st'
                       else Extract st' dir ts))"

definition onData :: "decoder \<Rightarrow> ParseState \<Rightarrow> string list \<Rightarrow> (error + ParseState) option" where
  "onData fromHexString st row =
     (case receive st row of
        Skip st' \<Rightarrow> Some (Inr (st'\<lparr>skipped := skipped st' + 1\<rparr>))
      | Throw e \<Rightarrow> Some (Inl e)
      | Extract st' dir ts \<Rightarrow>
          (case processBuffer fromHexString (currentHexString dir st') dir ts (results st') of
             None \<Rightarrow> None
           | Some (Inl e) \<Rightarrow> Some (Inl e)
           | Some (Inr (results', updated)) \<Rightarrow>
               Some (Inr ((setCurrentHexString dir
                             (carryOver (currentHexString dir st') updated)
                             (st'\<lparr>results := results'\<rparr>))
                          \<lparr>processed := processed st' + 1\<rparr>))))"

text \<open>The rows of the trace, in order; an exception ends the run.\<close>

fun run :: "decoder \<Rightarrow> ParseState \<Rightarrow> string list list \<Rightarrow> (error + ParseState) option" where
  "run fromHexString st [] = Some (Inr st)"
| "run fromHexString st (row # rows) =
     (case onData fromHexString st row of
        None \<Rightarrow> None
      | Some (Inl e) \<Rightarrow> Some (Inl e)
      | Some (Inr st') \<Rightarrow> run fromHexString st' rows)"

definition parseCSV :: "decoder \<Rightarrow> string list list \<Rightarrow> (error + ParsedData list) option" where
  "parseCSV fromHexString rows =
     (case run fromHexString initialState rows of
        None \<Rightarrow> None
      | Some (Inl e) \<Rightarrow> Some (Inl e)
      | Some (Inr st) \<Rightarrow> Some (Inr (results st)))"


section \<open>Sample values\<close>

text \<open>
  Concrete inputs on which the functions are evaluated. \<open>parsedPacket\<close> builds an element of
  the array \<open>pairPackets\<close> receives. \<open>sampleDecoder\<close> stands in for the external codec where
  a decoder is needed to run \<open>processBuffer\<close>: a frame is the byte 55, one byte giving the
  length of the frame in bytes, then the rest; decoding throws on fewer than two bytes, on
  a first byte other than 55 and on a length byte that is not two uppercase hex digits; the
  packet is valid when the buffer holds exactly the declared number of bytes.
\<close>

definition parsedPacket ::
  "string \<Rightarrow> direction \<Rightarrow> nat \<Rightarrow> nat \<Rightarrow> nat \<Rightarrow> string \<Rightarrow> ParsedData" where
  "parsedPacket ts d ct at sq s =
     \<lparr>ParsedData.timestamp = ts, ParsedData.direction = d,
      ParsedData.packet = \<lparr>length_pkt = 13, commandType = ct, ackType = at,
        sequenceID = sq, isValid = True, toShortString = s\<rparr>\<rparr>"

definition hexValue :: "char \<Rightarrow> nat option" where
  "hexValue c = map_of (zip ''0123456789ABCDEF'' [0 ..< 16]) c"

definition sampleDecoder :: decoder where
  "sampleDecoder s =
     (if length s < 4 \<or> \<not> startsWith s ''55'' then None
      else (case (hexValue (s ! 2), hexValue (s ! 3)) of
              (Some h, Some l) \<Rightarrow>
                Some \<lparr>length_pkt = 16 * h + l, commandType = 0, ackType = 0, sequenceID = 0,
                      isValid = (length s = 2 * (16 * h + l)),
                      toShortString = take (2 * (16 * h + l)) s\<rparr>
            | _ \<Rightarrow> None))"

text \<open>A row of the trace with the columns parse.ts reads: marker, timestamp, direction, hex data.\<close>

definition traceRow :: "string \<Rightarrow> string \<Rightarrow> string \<Rightarrow> string \<Rightarrow> string list" where
  "traceRow marker ts dirToken hex =
     [marker, '''', '''', ts, '''', '''', '''', '''', '''', dirToken, hex]"

text \<open>Every entry of the three outputs of \<open>pairPackets\<close>, pair members included.\<close>

definition emitted :: "ParsedResult \<Rightarrow> PacketData list" where
  "emitted res = map request (pairedPackets res) @ map response (pairedPackets res)
     @ unpairedPackets res @ singularPackets res"


section \<open>Invariants\<close>

text \<open>
  What every state of the loop satisfies: the arrays keep their lengths, what is left in
  \<open>ackPackets\<close> is a candidate response of the input, every pair joins a candidate request
  with a candidate response that matches it, every unpaired entry is a candidate request,
  and a request is deleted only once it is in a pair.
\<close>

definition pairInv :: "ParsedData list \<Rightarrow> PairState \<Rightarrow> bool" where
  "pairInv ps st =
     (length (requestPackets st) = length (filter isRequest ps)
      \<and> (\<forall>a. Some a \<in> set (ackPackets st) \<longrightarrow> a \<in> set ps \<and> isAck a)
      \<and> (\<forall>pr \<in> set (paired st). \<exists>r a. r \<in> set ps \<and> isRequest r \<and> a \<in> set ps \<and> isAck a
             \<and> matchesRequest r a
             \<and> request pr = toPacketData r \<and> response pr = toPacketData a)
      \<and> (\<forall>u \<in> set (unpaired st). \<exists>r \<in> set ps. isRequest r \<and> u = toPacketData r)
      \<and> (\<forall>i < length (filter isRequest ps).
             requestPackets st ! i = Some (filter isRequest ps ! i)
             \<or> (requestPackets st ! i = None
                 \<and> toPacketData (filter isRequest ps ! i) \<in> request ` set (paired st))))"

text \<open>What a request compares a candidate response by: its \<open>sequenceID\<close> and its direction.\<close>

definition ackKey :: "ParsedData \<Rightarrow> nat \<times> direction" where
  "ackKey p = (sequenceID (ParsedData.packet p), ParsedData.direction p)"

text \<open>A candidate response is deleted from \<open>ackPackets\<close> only once it is the response of a pair.\<close>

definition ackInv :: "ParsedData list \<Rightarrow> PairState \<Rightarrow> bool" where
  "ackInv ps st =
     (length (ackPackets st) = length (filter isAck ps)
      \<and> (\<forall>j < length (filter isAck ps).
             ackPackets st ! j = Some (filter isAck ps ! j)
             \<or> (ackPackets st ! j = None
                 \<and> toPacketData (filter isAck ps ! j) \<in> response ` set (paired st))))"

text \<open>A direction's buffer is synchronized when it is empty or begins with \<open>55\<close>.\<close>

definition synchronized :: "string \<Rightarrow> bool" where
  "synchronized b = (b = [] \<or> startsWith b ''55'')"

definition bufInv :: "ParseState \<Rightarrow> bool" where
  "bufInv st = (synchronized (rxCurrentHexString st) \<and> synchronized (txCurrentHexString st))"

text \<open>
  After the first \<open>k\<close> requests: each went to exactly one of \<open>paired\<close> and \<open>unpaired\<close>,
  the requests deleted are as many as the pairs, and the requests not yet visited are
  still in place.
\<close>

definition requestCount :: "ParsedData list \<Rightarrow> nat \<Rightarrow> PairState \<Rightarrow> bool" where
  "requestCount ps k st =
     (length (requestPackets st) = length (filter isRequest ps)
      \<and> mset (map request (paired st)) + mset (unpaired st)
          = mset (map toPacketData (take k (filter isRequest ps)))
      \<and> length (present (requestPackets st)) + length (paired st)
          = length (filter isRequest ps)
      \<and> (\<forall>i. k \<le> i \<and> i < length (filter isRequest ps) \<longrightarrow>
             requestPackets st ! i = Some (filter isRequest ps ! i)))"

text \<open>The responses of the pairs and the responses still in \<open>ackPackets\<close> are the candidate responses.\<close>

definition ackCount :: "ParsedData list \<Rightarrow> PairState \<Rightarrow> bool" where
  "ackCount ps st =
     (mset (map response (paired st)) + mset (map toPacketData (present (ackPackets st)))
        = mset (map toPacketData (filter isAck ps)))"


text \<open>
  The packet accepted at a pass as the specification words it: decoded again from the
  first \<open>length\<close> bytes (two characters each) when the decoded packet is invalid and its
  \<open>length\<close> is smaller than the number of bytes in the buffer, the decoded packet
  otherwise. To be compared with \<open>accepted\<close>, which follows line 141.
\<close>

definition specAccepted :: "decoder \<Rightarrow> string \<Rightarrow> Packet \<Rightarrow> Packet option" where
  "specAccepted fromHexString hexString decoded =
     (if \<not> isValid decoded \<and> length_pkt decoded * 2 < length hexString
      then fromHexString (take (length_pkt decoded * 2) hexString)
      else Some decoded)"

text \<open>The characters the packets of a list take up in the buffer: two for each byte of \<open>length\<close>.\<close>

definition consumed :: "ParsedData list \<Rightarrow> nat" where
  "consumed new = 2 * sum_list (map (\<lambda>p. length_pkt (ParsedData.packet p)) new)"



text \<open>The direction of a record from its direction token, as line 53 computes it.\<close>

definition directionOf :: "string \<Rightarrow> direction" where
  "directionOf tok = (if includes_str tok ''IN'' then RX else TX)"

text \<open>
  The packet accepted from a buffer, if the pass accepts one: \<open>None\<close> when either call of
  the decoder throws.
\<close>

definition acceptedAt :: "decoder \<Rightarrow> string \<Rightarrow> Packet option" where
  "acceptedAt fromHexString hexString =
     (case fromHexString hexString of
        None \<Rightarrow> None
      | Some decoded \<Rightarrow> accepted fromHexString hexString decoded)"

text \<open>
  A decoder is frame-local when a valid packet accepted from a buffer lies within that
  buffer and is accepted just the same when more data follows.
\<close>

definition frameLocal :: "decoder \<Rightarrow> bool" where
  "frameLocal fromHexString =
     (\<forall>h p. acceptedAt fromHexString h = Some p \<and> isValid p \<longrightarrow>
        length_pkt p * 2 \<le> length h
        \<and> (\<forall>x. acceptedAt fromHexString (h @ x) = Some p))"

text \<open>
  What a run is compared by: the decoded packets with their directions, and the two
  buffers; not the timestamps (a packet is stamped with the chunk that completed it) and
  not the counters.
\<close>

definition untimed :: "ParsedData \<Rightarrow> direction \<times> Packet" where
  "untimed p = (ParsedData.direction p, ParsedData.packet p)"

definition observed :: "ParseState \<Rightarrow> (direction \<times> Packet) list \<times> string \<times> string" where
  "observed st = (map untimed (results st), rxCurrentHexString st, txCurrentHexString st)"

definition outcome_observed ::
  "(error + ParseState) option
     \<Rightarrow> (error + (direction \<times> Packet) list \<times> string \<times> string) option" where
  "outcome_observed r = map_option (map_sum id observed) r"

text \<open>The same for a call of \<open>processBuffer\<close> on the buffer \<open>b\<close> of direction \<open>d\<close>.\<close>

definition finished ::
  "direction \<Rightarrow> string \<Rightarrow> string \<times> string
     \<Rightarrow> (error + ParsedData list \<times> string option) option
     \<Rightarrow> (error + (direction \<times> Packet) list \<times> string \<times> string) option" where
  "finished d b bufs r =
     (case r of
        None \<Rightarrow> None
      | Some (Inl e) \<Rightarrow> Some (Inl e)
      | Some (Inr (rs, u)) \<Rightarrow>
          Some (Inr (map untimed rs,
                     (case d of RX \<Rightarrow> (carryOver b u, snd bufs)
                              | TX \<Rightarrow> (fst bufs, carryOver b u)))))"

text \<open>
  Two outcomes of the loop that differ in timestamps only: the same error, or packets
  pushed that agree up to their timestamps, and the same last \<open>updateBuffer\<close> argument
  once a packet was pushed.
\<close>

definition similar ::
  "ParsedData list \<Rightarrow> string option \<Rightarrow> ParsedData list \<Rightarrow> string option
     \<Rightarrow> (error + ParsedData list \<times> string option)
     \<Rightarrow> (error + ParsedData list \<times> string option) \<Rightarrow> bool" where
  "similar rs u rs' u' y y' =
     ((\<exists>e. y = Inl e \<and> y' = Inl e)
      \<or> (\<exists>new new' v v'. y = Inr (rs @ new, v) \<and> y' = Inr (rs' @ new', v')
            \<and> map untimed new = map untimed new'
            \<and> (new = [] \<longrightarrow> v = u \<and> v' = u') \<and> (new \<noteq> [] \<longrightarrow> v = v')))"

text \<open>A chunk that is appended whole to a buffer: nothing of it is cut off before a \<open>55\<close>.\<close>

definition appendsWhole :: "string \<Rightarrow> string \<Rightarrow> bool" where
  "appendsWhole current h = (h = [] \<or> accumulate current h = Some (current @ h))"

text \<open>
  Chunks (with their timestamps) of one direction, before a last chunk \<open>final\<close>, at which
  the extractor does not lose framing: each is not empty once white space is removed and
  is appended to the buffer (the first has a \<open>55\<close> in it when the buffer is empty); the
  call it triggers returns, every packet it pushes is valid, and the buffer it leaves
  is the whole of what those packets did not take up; and the chunk after it is appended
  whole.
\<close>

fun waits :: "decoder \<Rightarrow> string \<Rightarrow> ParseState \<Rightarrow> (string \<times> string) list \<Rightarrow> string \<Rightarrow> bool" where
  "waits fromHexString tok st [] final = True"
| "waits fromHexString tok st ((t, c) # rest) final =
     (removeSpaces c \<noteq> []
      \<and> (case accumulate (currentHexString (directionOf tok) st) (removeSpaces c) of
            None \<Rightarrow> False
          | Some b \<Rightarrow>
              (case onData fromHexString st (traceRow ''0'' t tok c) of
                 Some (Inr st') \<Rightarrow>
                   (\<forall>p \<in> set (drop (length (results st)) (results st')).
                       isValid (ParsedData.packet p))
                   \<and> currentHexString (directionOf tok) st'
                       = drop (consumed (drop (length (results st)) (results st'))) b
                   \<and> appendsWhole (currentHexString (directionOf tok) st')
                       (removeSpaces (case rest of [] \<Rightarrow> final | tc # _ \<Rightarrow> snd tc))
                   \<and> waits fromHexString tok st' rest final
               | _ \<Rightarrow> False)))"
section \<open>Facts about the matching loop\<close>

lemma set_update_None: "Some a \<in> set (xs[k := None]) \<Longrightarrow> Some a \<in> set xs"
  using set_update_subset_insert[of xs k None] by auto

lemma present_set: "x \<in> set (present xs) \<longleftrightarrow> Some x \<in> set xs"
  by (induction xs rule: present.induct) auto

lemma matchesFrom_sound:
  "(j, a) \<in> set (matchesFrom r i as) \<Longrightarrow>
     matchesRequest r a \<and> i \<le> j \<and> j < i + length as \<and> as ! (j - i) = Some a"
proof (induction as arbitrary: i)
  case Nil
  then show ?case by simp
next
  case (Cons x as)
  show ?case
  proof (cases "j = i \<and> x = Some a \<and> matchesRequest r a")
    case True
    then show ?thesis by simp
  next
    case False
    with Cons.prems have "(j, a) \<in> set (matchesFrom r (Suc i) as)"
      by (cases x) (auto split: if_splits)
    from Cons.IH[OF this]
    have "matchesRequest r a" "Suc i \<le> j" "j < Suc i + length as" "as ! (j - Suc i) = Some a"
      by simp_all
    moreover from \<open>Suc i \<le> j\<close> have "(x # as) ! (j - i) = as ! (j - Suc i)"
      by (simp add: nth_Cons')
    ultimately show ?thesis by simp
  qed
qed


lemma pairInv_step:
  assumes inv: "pairInv ps st" and i: "i < length (filter isRequest ps)"
  shows "pairInv ps (pairStep st i)"
proof (cases "requestPackets st ! i")
  case None
  then show ?thesis using inv by (simp add: pairStep_def)
next
  case (Some r)
  from inv i Some have r_eq: "r = filter isRequest ps ! i"
    by (auto simp: pairInv_def)
  with i have r_in: "r \<in> set ps" "isRequest r"
    using nth_mem[of i "filter isRequest ps"] by auto
  show ?thesis
  proof (cases "matchesFrom r 0 (ackPackets st)")
    case Nil
    have st': "pairStep st i = st\<lparr>unpaired := unpaired st @ [toPacketData r]\<rparr>"
      using Some Nil by (simp add: pairStep_def)
    show ?thesis unfolding st' using inv r_in
      by (simp add: pairInv_def) blast
  next
    case (Cons m ms)
    then have "(fst m, snd m) \<in> set (matchesFrom r 0 (ackPackets st))" by simp
    from matchesFrom_sound[OF this]
    have m: "matchesRequest r (snd m)" "fst m < length (ackPackets st)"
      "ackPackets st ! fst m = Some (snd m)" by auto
    then have "Some (snd m) \<in> set (ackPackets st)" by (metis nth_mem)
    with inv have a_in: "snd m \<in> set ps" "isAck (snd m)" by (auto simp: pairInv_def)
    let ?st' = "pairStep st i"
    have st': "?st' = st\<lparr>ackPackets := (ackPackets st)[fst (last (m # ms)) := None],
                  requestPackets := (requestPackets st)[i := None],
                  paired := paired st @
                    [\<lparr>request = toPacketData r, response = toPacketData (snd m)\<rparr>]\<rparr>"
      using Some Cons by (simp add: pairStep_def)
    have 1: "length (requestPackets ?st') = length (filter isRequest ps)"
      using inv by (simp add: st' pairInv_def)
    have 2: "\<forall>a. Some a \<in> set (ackPackets ?st') \<longrightarrow> a \<in> set ps \<and> isAck a"
    proof (intro allI impI)
      fix a assume "Some a \<in> set (ackPackets ?st')"
      then have "Some a \<in> set (ackPackets st)"
        by (simp add: st' set_update_None)
      with inv show "a \<in> set ps \<and> isAck a" by (simp add: pairInv_def)
    qed
    have 3: "\<forall>pr \<in> set (paired ?st'). \<exists>r a. r \<in> set ps \<and> isRequest r \<and> a \<in> set ps \<and> isAck a
             \<and> matchesRequest r a
             \<and> request pr = toPacketData r \<and> response pr = toPacketData a"
    proof
      fix pr assume "pr \<in> set (paired ?st')"
      then consider "pr \<in> set (paired st)"
        | "pr = \<lparr>request = toPacketData r, response = toPacketData (snd m)\<rparr>"
        by (auto simp: st')
      then show "\<exists>r a. r \<in> set ps \<and> isRequest r \<and> a \<in> set ps \<and> isAck a
             \<and> matchesRequest r a
             \<and> request pr = toPacketData r \<and> response pr = toPacketData a"
      proof cases
        case 1
        with inv show ?thesis unfolding pairInv_def by blast
      next
        case 2
        with r_in a_in m(1) show ?thesis by auto
      qed
    qed
    have 4: "\<forall>u \<in> set (unpaired ?st'). \<exists>r \<in> set ps. isRequest r \<and> u = toPacketData r"
      using inv by (simp add: st' pairInv_def)
    have 5: "\<forall>k < length (filter isRequest ps).
             requestPackets ?st' ! k = Some (filter isRequest ps ! k)
             \<or> (requestPackets ?st' ! k = None
                 \<and> toPacketData (filter isRequest ps ! k) \<in> request ` set (paired ?st'))"
    proof (intro allI impI)
      fix k assume k: "k < length (filter isRequest ps)"
      from inv k have old: "requestPackets st ! k = Some (filter isRequest ps ! k)
             \<or> (requestPackets st ! k = None
                 \<and> toPacketData (filter isRequest ps ! k) \<in> request ` set (paired st))"
        and len: "length (requestPackets st) = length (filter isRequest ps)"
        unfolding pairInv_def by blast+
      show "requestPackets ?st' ! k = Some (filter isRequest ps ! k)
             \<or> (requestPackets ?st' ! k = None
                 \<and> toPacketData (filter isRequest ps ! k) \<in> request ` set (paired ?st'))"
      proof (cases "k = i")
        case True
        then show ?thesis using len i r_eq by (simp add: st' image_iff)
      next
        case False
        with old show ?thesis by (auto simp: st')
      qed
    qed
    from 1 2 3 4 5 show ?thesis unfolding pairInv_def by blast
  qed
qed

lemma pairInv_foldl:
  "pairInv ps st \<Longrightarrow> \<forall>i \<in> set is. i < length (filter isRequest ps) \<Longrightarrow>
   pairInv ps (foldl pairStep st is)"
  by (induction "is" arbitrary: st) (simp_all add: pairInv_step)

lemma pairInv_pairLoop: "pairInv ps (pairLoop ps)"
  unfolding pairLoop_def
  by (rule pairInv_foldl) (auto simp: pairInv_def)

lemma matchesFrom_distinct: "distinct (map fst (matchesFrom r i as))"
proof (induction as arbitrary: i)
  case Nil
  then show ?case by simp
next
  case (Cons x as)
  have notin: "i \<notin> fst ` set (matchesFrom r (Suc i) as)"
  proof
    assume "i \<in> fst ` set (matchesFrom r (Suc i) as)"
    then obtain a where "(i, a) \<in> set (matchesFrom r (Suc i) as)" by auto
    from matchesFrom_sound[OF this] show False by simp
  qed
  show ?case
  proof (cases x)
    case None
    then show ?thesis using Cons.IH by simp
  next
    case (Some p)
    then show ?thesis using Cons.IH notin by simp
  qed
qed

lemma direction_opposite:
  "(a :: direction) \<noteq> c \<Longrightarrow> b \<noteq> c \<Longrightarrow> a = b"
  by (cases a; cases b; cases c) simp_all

lemma matchesFrom_single:
  assumes inv: "ackInv ps st"
    and dist: "distinct (map ackKey (filter isAck ps))"
    and ms: "matchesFrom r 0 (ackPackets st) = m # ms"
  shows "ms = []"
proof (rule ccontr)
  assume "ms \<noteq> []"
  then obtain m2 ms' where ms': "ms = m2 # ms'" by (cases ms) auto
  from matchesFrom_distinct[of r 0 "ackPackets st"] ms ms'
  have neq: "fst m \<noteq> fst m2" by simp
  have "(fst m, snd m) \<in> set (matchesFrom r 0 (ackPackets st))"
    "(fst m2, snd m2) \<in> set (matchesFrom r 0 (ackPackets st))"
    using ms ms' by simp_all
  from this[THEN matchesFrom_sound]
  have m1: "matchesRequest r (snd m)" "fst m < length (ackPackets st)"
         "ackPackets st ! fst m = Some (snd m)"
    and m2: "matchesRequest r (snd m2)" "fst m2 < length (ackPackets st)"
         "ackPackets st ! fst m2 = Some (snd m2)"
    by simp_all
  from inv have len: "length (ackPackets st) = length (filter isAck ps)"
    by (simp add: ackInv_def)
  from inv m1(2,3) len have e1: "snd m = filter isAck ps ! fst m"
    unfolding ackInv_def by fastforce
  from inv m2(2,3) len have e2: "snd m2 = filter isAck ps ! fst m2"
    unfolding ackInv_def by fastforce
  from m1(1) m2(1) have "ackKey (snd m) = ackKey (snd m2)"
    by (auto simp: matchesRequest_def ackKey_def intro: direction_opposite)
  with e1 e2 have "map ackKey (filter isAck ps) ! fst m = map ackKey (filter isAck ps) ! fst m2"
    using m1(2) m2(2) len by simp
  with m1(2) m2(2) len have "fst m = fst m2"
    using nth_eq_iff_index_eq[OF dist, of "fst m" "fst m2"] by simp
  with neq show False by simp
qed

lemma ackInv_step:
  assumes inv: "ackInv ps st"
    and dist: "distinct (map ackKey (filter isAck ps))"
  shows "ackInv ps (pairStep st i)"
proof (cases "requestPackets st ! i")
  case None
  then show ?thesis using inv by (simp add: pairStep_def)
next
  case (Some r)
  show ?thesis
  proof (cases "matchesFrom r 0 (ackPackets st)")
    case Nil
    have st': "pairStep st i = st\<lparr>unpaired := unpaired st @ [toPacketData r]\<rparr>"
      using Some Nil by (simp add: pairStep_def)
    show ?thesis unfolding st' using inv by (simp add: ackInv_def)
  next
    case (Cons m ms)
    from matchesFrom_single[OF inv dist Cons] have ms: "ms = []" .
    have "(fst m, snd m) \<in> set (matchesFrom r 0 (ackPackets st))" using Cons by simp
    from matchesFrom_sound[OF this]
    have m: "fst m < length (ackPackets st)" "ackPackets st ! fst m = Some (snd m)"
      by simp_all
    from inv have len: "length (ackPackets st) = length (filter isAck ps)"
      by (simp add: ackInv_def)
    from inv m len have e: "snd m = filter isAck ps ! fst m"
      unfolding ackInv_def by fastforce
    let ?st' = "pairStep st i"
    have st': "?st' = st\<lparr>ackPackets := (ackPackets st)[fst m := None],
                  requestPackets := (requestPackets st)[i := None],
                  paired := paired st @
                    [\<lparr>request = toPacketData r, response = toPacketData (snd m)\<rparr>]\<rparr>"
      using Some Cons ms by (simp add: pairStep_def)
    have "\<forall>j < length (filter isAck ps).
             ackPackets ?st' ! j = Some (filter isAck ps ! j)
             \<or> (ackPackets ?st' ! j = None
                 \<and> toPacketData (filter isAck ps ! j) \<in> response ` set (paired ?st'))"
    proof (intro allI impI)
      fix j assume j: "j < length (filter isAck ps)"
      from inv j have old: "ackPackets st ! j = Some (filter isAck ps ! j)
             \<or> (ackPackets st ! j = None
                 \<and> toPacketData (filter isAck ps ! j) \<in> response ` set (paired st))"
        unfolding ackInv_def by blast
      show "ackPackets ?st' ! j = Some (filter isAck ps ! j)
             \<or> (ackPackets ?st' ! j = None
                 \<and> toPacketData (filter isAck ps ! j) \<in> response ` set (paired ?st'))"
      proof (cases "j = fst m")
        case True
        then show ?thesis using len j e by (simp add: st' image_iff)
      next
        case False
        with old show ?thesis by (auto simp: st')
      qed
    qed
    moreover have "length (ackPackets ?st') = length (filter isAck ps)"
      using len by (simp add: st')
    ultimately show ?thesis unfolding ackInv_def by blast
  qed
qed

lemma ackInv_foldl:
  "ackInv ps st \<Longrightarrow> distinct (map ackKey (filter isAck ps)) \<Longrightarrow>
   ackInv ps (foldl pairStep st is)"
  by (induction "is" arbitrary: st) (simp_all add: ackInv_step)

lemma ackInv_pairLoop:
  "distinct (map ackKey (filter isAck ps)) \<Longrightarrow> ackInv ps (pairLoop ps)"
  unfolding pairLoop_def
  by (rule ackInv_foldl) (simp_all add: ackInv_def)

lemma requests_emitted:
  assumes "p \<in> set ps" "isRequest p"
  shows "toPacketData p \<in> request ` set (pairedPackets (pairPackets ps))
           \<union> set (unpairedPackets (pairPackets ps))"
proof -
  from assms have "p \<in> set (filter isRequest ps)" by simp
  then obtain i where i: "i < length (filter isRequest ps)" "filter isRequest ps ! i = p"
    by (metis in_set_conv_nth)
  let ?st = "pairLoop ps"
  from pairInv_pairLoop[of ps] i
  have len: "length (requestPackets ?st) = length (filter isRequest ps)"
    and c: "requestPackets ?st ! i = Some p
       \<or> (requestPackets ?st ! i = None \<and> toPacketData p \<in> request ` set (paired ?st))"
    unfolding pairInv_def by auto
  from c show ?thesis
  proof
    assume "requestPackets ?st ! i = Some p"
    with i(1) len have "Some p \<in> set (requestPackets ?st)" by (metis nth_mem)
    then have "p \<in> set (present (requestPackets ?st))" by (simp add: present_set)
    then show ?thesis by (simp add: pairPackets_def Let_def)
  next
    assume "requestPackets ?st ! i = None \<and> toPacketData p \<in> request ` set (paired ?st)"
    then show ?thesis by (simp add: pairPackets_def Let_def)
  qed
qed

lemma responses_emitted:
  assumes dist: "distinct (map ackKey (filter isAck ps))"
    and "p \<in> set ps" "isAck p"
  shows "toPacketData p \<in> response ` set (pairedPackets (pairPackets ps))
           \<union> set (unpairedPackets (pairPackets ps))"
proof -
  from assms have "p \<in> set (filter isAck ps)" by simp
  then obtain j where j: "j < length (filter isAck ps)" "filter isAck ps ! j = p"
    by (metis in_set_conv_nth)
  let ?st = "pairLoop ps"
  from ackInv_pairLoop[OF dist] j
  have len: "length (ackPackets ?st) = length (filter isAck ps)"
    and c: "ackPackets ?st ! j = Some p
       \<or> (ackPackets ?st ! j = None \<and> toPacketData p \<in> response ` set (paired ?st))"
    unfolding ackInv_def by auto
  from c show ?thesis
  proof
    assume "ackPackets ?st ! j = Some p"
    with j(1) len have "Some p \<in> set (ackPackets ?st)" by (metis nth_mem)
    then have "p \<in> set (present (ackPackets ?st))" by (simp add: present_set)
    then show ?thesis by (simp add: pairPackets_def Let_def)
  next
    assume "ackPackets ?st ! j = None \<and> toPacketData p \<in> response ` set (paired ?st)"
    then show ?thesis by (simp add: pairPackets_def Let_def)
  qed
qed

text \<open>Where each output entry comes from.\<close>

lemma paired_origin:
  assumes "pr \<in> set (pairedPackets (pairPackets ps))"
  shows "\<exists>r a. r \<in> set ps \<and> isRequest r \<and> a \<in> set ps \<and> isAck a
           \<and> request pr = toPacketData r \<and> response pr = toPacketData a"
proof -
  from assms have "pr \<in> set (paired (pairLoop ps))"
    by (simp add: pairPackets_def Let_def)
  with pairInv_pairLoop[of ps] show ?thesis unfolding pairInv_def by blast
qed

lemma unpaired_origin:
  assumes "u \<in> set (unpairedPackets (pairPackets ps))"
  shows "\<exists>p \<in> set ps. (isRequest p \<or> isAck p) \<and> u = toPacketData p"
proof -
  let ?st = "pairLoop ps"
  note inv = pairInv_pairLoop[of ps]
  from assms consider "u \<in> set (unpaired ?st)"
    | a where "Some a \<in> set (ackPackets ?st)" "u = toPacketData a"
    | r where "Some r \<in> set (requestPackets ?st)" "u = toPacketData r"
    by (auto simp: pairPackets_def Let_def present_set)
  then show ?thesis
  proof cases
    case 1
    with inv show ?thesis unfolding pairInv_def by blast
  next
    case 2
    with inv show ?thesis unfolding pairInv_def by blast
  next
    case 3
    then obtain i where i: "i < length (requestPackets ?st)" "requestPackets ?st ! i = Some r"
      by (auto simp: in_set_conv_nth)
    with inv have "i < length (filter isRequest ps)" "r = filter isRequest ps ! i"
      unfolding pairInv_def by auto
    then have "r \<in> set (filter isRequest ps)" by (metis nth_mem)
    with 3 show ?thesis by auto
  qed
qed


lemma present_map_Some: "present (map Some xs) = xs"
  by (induction xs) simp_all

lemma present_update_None:
  "i < length xs \<Longrightarrow> xs ! i = Some a \<Longrightarrow>
   mset (present xs) = add_mset a (mset (present (xs[i := None])))"
proof (induction xs arbitrary: i)
  case Nil
  then show ?case by simp
next
  case (Cons x xs)
  show ?case
  proof (cases i)
    case 0
    with Cons.prems show ?thesis by simp
  next
    case (Suc j)
    with Cons.prems have "j < length xs" "xs ! j = Some a" by simp_all
    from Cons.IH[OF this] Suc show ?thesis by (cases x) simp_all
  qed
qed

lemma present_update_None_length:
  assumes "i < length xs" "xs ! i = Some a"
  shows "length (present xs) = Suc (length (present (xs[i := None])))"
proof -
  from present_update_None[OF assms]
  have "size (mset (present xs)) = size (add_mset a (mset (present (xs[i := None]))))"
    by simp
  then show ?thesis by simp
qed

lemma requestCount_step:
  assumes inv: "requestCount ps k st" and k: "k < length (filter isRequest ps)"
  shows "requestCount ps (Suc k) (pairStep st k)"
proof -
  let ?reqs = "filter isRequest ps"
  from inv k have cur: "requestPackets st ! k = Some (?reqs ! k)"
    and len: "length (requestPackets st) = length ?reqs"
    and ms: "mset (map request (paired st)) + mset (unpaired st)
          = mset (map toPacketData (take k ?reqs))"
    and cnt: "length (present (requestPackets st)) + length (paired st) = length ?reqs"
    and later: "\<forall>i. k \<le> i \<and> i < length ?reqs \<longrightarrow> requestPackets st ! i = Some (?reqs ! i)"
    unfolding requestCount_def by auto
  from k have tk: "take (Suc k) ?reqs = take k ?reqs @ [?reqs ! k]"
    by (rule take_Suc_conv_app_nth)
  show ?thesis
  proof (cases "matchesFrom (?reqs ! k) 0 (ackPackets st)")
    case Nil
    have st': "pairStep st k = st\<lparr>unpaired := unpaired st @ [toPacketData (?reqs ! k)]\<rparr>"
      using cur Nil by (simp add: pairStep_def)
    show ?thesis
      unfolding st' requestCount_def using len ms cnt later by (simp add: tk)
  next
    case (Cons m ms')
    have st': "pairStep st k = st\<lparr>ackPackets := (ackPackets st)[fst (last (m # ms')) := None],
                  requestPackets := (requestPackets st)[k := None],
                  paired := paired st @
                    [\<lparr>request = toPacketData (?reqs ! k), response = toPacketData (snd m)\<rparr>]\<rparr>"
      using cur Cons by (simp add: pairStep_def)
    from k len have "k < length (requestPackets st)" by simp
    from present_update_None_length[OF this cur]
    have pl: "length (present (requestPackets st))
        = Suc (length (present ((requestPackets st)[k := None])))" .
    show ?thesis
      unfolding st' requestCount_def using len ms cnt later pl by (simp add: tk)
  qed
qed

lemma requestCount_upto:
  "k \<le> length (filter isRequest ps) \<Longrightarrow>
   requestCount ps k
     (foldl pairStep
        \<lparr>requestPackets = map Some (filter isRequest ps),
         ackPackets = map Some (filter isAck ps), paired = [], unpaired = []\<rparr>
        [0 ..< k])"
proof (induction k)
  case 0
  show ?case by (simp add: requestCount_def present_map_Some)
next
  case (Suc k)
  then have "k < length (filter isRequest ps)" by simp
  from requestCount_step[OF Suc.IH this] Suc.prems show ?case by simp
qed

lemma requestCount_pairLoop:
  "requestCount ps (length (filter isRequest ps)) (pairLoop ps)"
  unfolding pairLoop_def by (rule requestCount_upto) simp

lemma ackCount_step:
  assumes inv: "ackCount ps st" and ai: "ackInv ps st"
    and dist: "distinct (map ackKey (filter isAck ps))"
  shows "ackCount ps (pairStep st i)"
proof (cases "requestPackets st ! i")
  case None
  then show ?thesis using inv by (simp add: pairStep_def)
next
  case (Some r)
  show ?thesis
  proof (cases "matchesFrom r 0 (ackPackets st)")
    case Nil
    have st': "pairStep st i = st\<lparr>unpaired := unpaired st @ [toPacketData r]\<rparr>"
      using Some Nil by (simp add: pairStep_def)
    show ?thesis unfolding st' using inv by (simp add: ackCount_def)
  next
    case (Cons m ms)
    from matchesFrom_single[OF ai dist Cons] have ms: "ms = []" .
    have "(fst m, snd m) \<in> set (matchesFrom r 0 (ackPackets st))" using Cons by simp
    from matchesFrom_sound[OF this]
    have m: "fst m < length (ackPackets st)" "ackPackets st ! fst m = Some (snd m)"
      by simp_all
    have st': "pairStep st i = st\<lparr>ackPackets := (ackPackets st)[fst m := None],
                  requestPackets := (requestPackets st)[i := None],
                  paired := paired st @
                    [\<lparr>request = toPacketData r, response = toPacketData (snd m)\<rparr>]\<rparr>"
      using Some Cons ms by (simp add: pairStep_def)
    from present_update_None[OF m]
    have "mset (present (ackPackets st))
        = add_mset (snd m) (mset (present ((ackPackets st)[fst m := None])))" .
    then have "mset (map toPacketData (present (ackPackets st)))
        = add_mset (toPacketData (snd m))
            (mset (map toPacketData (present ((ackPackets st)[fst m := None]))))"
      by (metis image_mset_add_mset mset_map)
    with inv show ?thesis unfolding st' ackCount_def by simp
  qed
qed

lemma ackCount_foldl:
  "ackCount ps st \<Longrightarrow> ackInv ps st \<Longrightarrow> distinct (map ackKey (filter isAck ps)) \<Longrightarrow>
   ackCount ps (foldl pairStep st is)"
  by (induction "is" arbitrary: st) (simp_all add: ackCount_step ackInv_step)

lemma ackCount_pairLoop:
  "distinct (map ackKey (filter isAck ps)) \<Longrightarrow> ackCount ps (pairLoop ps)"
  unfolding pairLoop_def
  by (rule ackCount_foldl) (simp_all add: ackCount_def ackInv_def present_map_Some)

lemma exact_accounting:
  assumes dist: "distinct (map ackKey (filter isAck ps))"
    and all: "length (pairedPackets (pairPackets ps)) = length (filter isRequest ps)"
  shows "mset (map request (pairedPackets (pairPackets ps)))
           = mset (map toPacketData (filter isRequest ps))
         \<and> mset (map response (pairedPackets (pairPackets ps)))
             + mset (unpairedPackets (pairPackets ps))
           = mset (map toPacketData (filter isAck ps))"
proof -
  let ?st = "pairLoop ps"
  from all have lp: "length (paired ?st) = length (filter isRequest ps)"
    by (simp add: pairPackets_def Let_def)
  from requestCount_pairLoop[of ps]
  have ms: "mset (map request (paired ?st)) + mset (unpaired ?st)
          = mset (map toPacketData (filter isRequest ps))"
    and cnt: "length (present (requestPackets ?st)) + length (paired ?st)
          = length (filter isRequest ps)"
    unfolding requestCount_def by simp_all
  from cnt lp have pr: "present (requestPackets ?st) = []" by simp
  from ms have "size (mset (map request (paired ?st)) + mset (unpaired ?st))
      = size (mset (map toPacketData (filter isRequest ps)))" by simp
  then have "length (paired ?st) + length (unpaired ?st) = length (filter isRequest ps)"
    by (simp only: size_union size_mset length_map)
  with lp have un: "unpaired ?st = []" by simp
  from ackCount_pairLoop[OF dist]
  have ac: "mset (map response (paired ?st)) + mset (map toPacketData (present (ackPackets ?st)))
        = mset (map toPacketData (filter isAck ps))"
    by (simp add: ackCount_def)
  from ms un ac pr show ?thesis by (simp add: pairPackets_def Let_def)
qed


section \<open>pairPackets: the claims\<close>

text \<open>
  C4. For every pair emitted by \<open>pairPackets\<close>, the request member and the response member
  are built from two input packets with equal \<open>sequenceID\<close> and different directions, and
  the directions recorded in the pair differ (one is RX, the other TX).
\<close>

theorem pairing_correct:
  assumes "pr \<in> set (pairedPackets (pairPackets ps))"
  shows "\<exists>r a. r \<in> set ps \<and> a \<in> set ps
           \<and> request pr = toPacketData r \<and> response pr = toPacketData a
           \<and> sequenceID (ParsedData.packet r) = sequenceID (ParsedData.packet a)
           \<and> ParsedData.direction r \<noteq> ParsedData.direction a
           \<and> PacketData.direction (request pr) \<noteq> PacketData.direction (response pr)"
proof -
  from assms have "pr \<in> set (paired (pairLoop ps))"
    by (simp add: pairPackets_def Let_def)
  with pairInv_pairLoop[of ps] obtain r a where
    ra: "r \<in> set ps" "a \<in> set ps" "matchesRequest r a"
        "request pr = toPacketData r" "response pr = toPacketData a"
    unfolding pairInv_def by blast
  from ra(3) have m: "sequenceID (ParsedData.packet r) = sequenceID (ParsedData.packet a)"
    "ParsedData.direction r \<noteq> ParsedData.direction a"
    by (auto simp: matchesRequest_def)
  from m(2) ra(4,5)
  have d: "PacketData.direction (request pr) \<noteq> PacketData.direction (response pr)"
    by (simp add: toPacketData_def)
  from ra(1,2,4,5) m d show ?thesis by blast
qed

theorem pairing_correct_witness:
  "\<lparr>request = toPacketData (parsedPacket ''1'' TX 0 1 7 ''req''),
    response = toPacketData (parsedPacket ''2'' RX 1 0 7 ''ack'')\<rparr>
     \<in> set (pairedPackets (pairPackets
          [parsedPacket ''1'' TX 0 1 7 ''req'', parsedPacket ''2'' RX 1 0 7 ''ack'']))
   \<and> (\<exists>r a. r \<in> set [parsedPacket ''1'' TX 0 1 7 ''req'', parsedPacket ''2'' RX 1 0 7 ''ack'']
         \<and> a \<in> set [parsedPacket ''1'' TX 0 1 7 ''req'', parsedPacket ''2'' RX 1 0 7 ''ack'']
         \<and> toPacketData (parsedPacket ''1'' TX 0 1 7 ''req'') = toPacketData r
         \<and> toPacketData (parsedPacket ''2'' RX 1 0 7 ''ack'') = toPacketData a
         \<and> sequenceID (ParsedData.packet r) = sequenceID (ParsedData.packet a)
         \<and> ParsedData.direction r \<noteq> ParsedData.direction a
         \<and> PacketData.direction (toPacketData (parsedPacket ''1'' TX 0 1 7 ''req''))
             \<noteq> PacketData.direction (toPacketData (parsedPacket ''2'' RX 1 0 7 ''ack'')))"
proof -
  have h: "\<lparr>request = toPacketData (parsedPacket ''1'' TX 0 1 7 ''req''),
    response = toPacketData (parsedPacket ''2'' RX 1 0 7 ''ack'')\<rparr>
     \<in> set (pairedPackets (pairPackets
          [parsedPacket ''1'' TX 0 1 7 ''req'', parsedPacket ''2'' RX 1 0 7 ''ack'']))"
    by code_simp
  from pairing_correct[OF h] h show ?thesis by simp
qed

text \<open>
  C1, as stated: every input packet appears exactly once among the entries of the three
  outputs. It fails on a request followed by a response whose \<open>ackType\<close> is 0: the response
  is the response member of the pair and is in the singular output as well, three entries
  for two packets.
\<close>

theorem completeness_counterexample:
  "emitted (pairPackets [parsedPacket ''1'' TX 0 1 7 ''req'', parsedPacket ''2'' RX 1 0 7 ''ack''])
     = [toPacketData (parsedPacket ''1'' TX 0 1 7 ''req''),
        toPacketData (parsedPacket ''2'' RX 1 0 7 ''ack''),
        toPacketData (parsedPacket ''2'' RX 1 0 7 ''ack'')]
   \<and> mset (emitted (pairPackets
         [parsedPacket ''1'' TX 0 1 7 ''req'', parsedPacket ''2'' RX 1 0 7 ''ack'']))
     \<noteq> mset (map toPacketData
         [parsedPacket ''1'' TX 0 1 7 ''req'', parsedPacket ''2'' RX 1 0 7 ''ack''])"
proof -
  have e: "emitted (pairPackets [parsedPacket ''1'' TX 0 1 7 ''req'', parsedPacket ''2'' RX 1 0 7 ''ack''])
     = [toPacketData (parsedPacket ''1'' TX 0 1 7 ''req''),
        toPacketData (parsedPacket ''2'' RX 1 0 7 ''ack''),
        toPacketData (parsedPacket ''2'' RX 1 0 7 ''ack'')]"
    by code_simp
  have "size (mset (emitted (pairPackets
         [parsedPacket ''1'' TX 0 1 7 ''req'', parsedPacket ''2'' RX 1 0 7 ''ack''])))
     \<noteq> size (mset (map toPacketData
         [parsedPacket ''1'' TX 0 1 7 ''req'', parsedPacket ''2'' RX 1 0 7 ''ack'']))"
    unfolding e by simp
  then have "mset (emitted (pairPackets
         [parsedPacket ''1'' TX 0 1 7 ''req'', parsedPacket ''2'' RX 1 0 7 ''ack'']))
     \<noteq> mset (map toPacketData
         [parsedPacket ''1'' TX 0 1 7 ''req'', parsedPacket ''2'' RX 1 0 7 ''ack''])"
    by metis
  with e show ?thesis by blast
qed

text \<open>
  C1, amended. The singular output holds exactly the packets with \<open>ackType\<close> 0, once each and
  in input order; every candidate request is the request of a pair or is in the unpaired
  output; every candidate response is the response of a pair or is in the unpaired output
  when no two candidate responses share \<open>sequenceID\<close> and direction; and every entry of the
  outputs is built from an input packet. When, moreover, every candidate request is
  paired, the requests of the pairs are exactly the candidate requests, and the responses
  of the pairs together with the unpaired entries are exactly the candidate responses,
  each once. The outputs are not disjoint: a response with \<open>ackType\<close> 0 is counted as a
  candidate response and as singular.
\<close>

theorem pairPackets_accounting:
  "singularPackets (pairPackets ps) = map toPacketData (filter isSingular ps)
   \<and> (\<forall>p \<in> set ps. isRequest p \<longrightarrow>
         toPacketData p \<in> request ` set (pairedPackets (pairPackets ps))
           \<union> set (unpairedPackets (pairPackets ps)))
   \<and> (distinct (map ackKey (filter isAck ps)) \<longrightarrow>
        (\<forall>p \<in> set ps. isAck p \<longrightarrow>
           toPacketData p \<in> response ` set (pairedPackets (pairPackets ps))
             \<union> set (unpairedPackets (pairPackets ps))))
   \<and> set (emitted (pairPackets ps)) \<subseteq> toPacketData ` set ps
   \<and> (distinct (map ackKey (filter isAck ps))
        \<and> length (pairedPackets (pairPackets ps)) = length (filter isRequest ps) \<longrightarrow>
        mset (map request (pairedPackets (pairPackets ps)))
          = mset (map toPacketData (filter isRequest ps))
        \<and> mset (map response (pairedPackets (pairPackets ps)))
            + mset (unpairedPackets (pairPackets ps))
          = mset (map toPacketData (filter isAck ps)))"
proof -
  have a: "singularPackets (pairPackets ps) = map toPacketData (filter isSingular ps)"
    by (simp add: pairPackets_def Let_def)
  have d: "set (emitted (pairPackets ps)) \<subseteq> toPacketData ` set ps"
  proof
    fix x assume "x \<in> set (emitted (pairPackets ps))"
    then consider pr where "pr \<in> set (pairedPackets (pairPackets ps))"
        "x = request pr \<or> x = response pr"
      | "x \<in> set (unpairedPackets (pairPackets ps))"
      | "x \<in> set (singularPackets (pairPackets ps))"
      by (auto simp: emitted_def)
    then show "x \<in> toPacketData ` set ps"
    proof cases
      case 1
      with paired_origin[OF 1(1)] show ?thesis by auto
    next
      case 2
      with unpaired_origin[OF 2] show ?thesis by auto
    next
      case 3
      then show ?thesis unfolding a by auto
    qed
  qed
  have e: "distinct (map ackKey (filter isAck ps))
        \<and> length (pairedPackets (pairPackets ps)) = length (filter isRequest ps) \<longrightarrow>
        mset (map request (pairedPackets (pairPackets ps)))
          = mset (map toPacketData (filter isRequest ps))
        \<and> mset (map response (pairedPackets (pairPackets ps)))
            + mset (unpairedPackets (pairPackets ps))
          = mset (map toPacketData (filter isAck ps))"
    using exact_accounting[of ps] by blast
  have b: "\<forall>p \<in> set ps. isRequest p \<longrightarrow>
         toPacketData p \<in> request ` set (pairedPackets (pairPackets ps))
           \<union> set (unpairedPackets (pairPackets ps))"
    using requests_emitted[of _ ps] by blast
  have c: "distinct (map ackKey (filter isAck ps)) \<longrightarrow>
        (\<forall>p \<in> set ps. isAck p \<longrightarrow>
           toPacketData p \<in> response ` set (pairedPackets (pairPackets ps))
             \<union> set (unpairedPackets (pairPackets ps)))"
    using responses_emitted[of ps] by blast
  show ?thesis
    by (intro conjI) (rule a, rule b, rule c, rule d, rule e)
qed

theorem pairPackets_accounting_witness:
  "distinct (map ackKey (filter isAck
      [parsedPacket ''1'' TX 0 1 7 ''req'', parsedPacket ''2'' RX 1 1 7 ''ack'',
       parsedPacket ''3'' TX 0 0 9 ''note'']))
   \<and> length (pairedPackets (pairPackets
        [parsedPacket ''1'' TX 0 1 7 ''req'', parsedPacket ''2'' RX 1 1 7 ''ack'',
         parsedPacket ''3'' TX 0 0 9 ''note'']))
     = length (filter isRequest
        [parsedPacket ''1'' TX 0 1 7 ''req'', parsedPacket ''2'' RX 1 1 7 ''ack'',
         parsedPacket ''3'' TX 0 0 9 ''note''])
   \<and> singularPackets (pairPackets
      [parsedPacket ''1'' TX 0 1 7 ''req'', parsedPacket ''2'' RX 1 1 7 ''ack'',
       parsedPacket ''3'' TX 0 0 9 ''note''])
     = [toPacketData (parsedPacket ''3'' TX 0 0 9 ''note'')]
   \<and> toPacketData (parsedPacket ''1'' TX 0 1 7 ''req'')
       \<in> request ` set (pairedPackets (pairPackets
            [parsedPacket ''1'' TX 0 1 7 ''req'', parsedPacket ''2'' RX 1 1 7 ''ack'',
             parsedPacket ''3'' TX 0 0 9 ''note'']))
         \<union> set (unpairedPackets (pairPackets
            [parsedPacket ''1'' TX 0 1 7 ''req'', parsedPacket ''2'' RX 1 1 7 ''ack'',
             parsedPacket ''3'' TX 0 0 9 ''note'']))
   \<and> toPacketData (parsedPacket ''2'' RX 1 1 7 ''ack'')
       \<in> response ` set (pairedPackets (pairPackets
            [parsedPacket ''1'' TX 0 1 7 ''req'', parsedPacket ''2'' RX 1 1 7 ''ack'',
             parsedPacket ''3'' TX 0 0 9 ''note'']))
         \<union> set (unpairedPackets (pairPackets
            [parsedPacket ''1'' TX 0 1 7 ''req'', parsedPacket ''2'' RX 1 1 7 ''ack'',
             parsedPacket ''3'' TX 0 0 9 ''note'']))
   \<and> set (emitted (pairPackets
        [parsedPacket ''1'' TX 0 1 7 ''req'', parsedPacket ''2'' RX 1 1 7 ''ack'',
         parsedPacket ''3'' TX 0 0 9 ''note'']))
     \<subseteq> toPacketData ` set
        [parsedPacket ''1'' TX 0 1 7 ''req'', parsedPacket ''2'' RX 1 1 7 ''ack'',
         parsedPacket ''3'' TX 0 0 9 ''note'']
   \<and> mset (map request (pairedPackets (pairPackets
        [parsedPacket ''1'' TX 0 1 7 ''req'', parsedPacket ''2'' RX 1 1 7 ''ack'',
         parsedPacket ''3'' TX 0 0 9 ''note''])))
     = {#toPacketData (parsedPacket ''1'' TX 0 1 7 ''req'')#}
   \<and> mset (map response (pairedPackets (pairPackets
        [parsedPacket ''1'' TX 0 1 7 ''req'', parsedPacket ''2'' RX 1 1 7 ''ack'',
         parsedPacket ''3'' TX 0 0 9 ''note''])))
       + mset (unpairedPackets (pairPackets
        [parsedPacket ''1'' TX 0 1 7 ''req'', parsedPacket ''2'' RX 1 1 7 ''ack'',
         parsedPacket ''3'' TX 0 0 9 ''note'']))
     = {#toPacketData (parsedPacket ''2'' RX 1 1 7 ''ack'')#}"
proof -
  let ?ps = "[parsedPacket ''1'' TX 0 1 7 ''req'', parsedPacket ''2'' RX 1 1 7 ''ack'',
       parsedPacket ''3'' TX 0 0 9 ''note'']"
  have h1: "distinct (map ackKey (filter isAck ?ps))" by code_simp
  have h2: "isRequest (parsedPacket ''1'' TX 0 1 7 ''req'')"
    "isAck (parsedPacket ''2'' RX 1 1 7 ''ack'')" by code_simp+
  have h3: "map toPacketData (filter isSingular ?ps)
     = [toPacketData (parsedPacket ''3'' TX 0 0 9 ''note'')]" by code_simp
  have h4: "length (pairedPackets (pairPackets ?ps)) = length (filter isRequest ?ps)"
    by code_simp
  have h5: "filter isRequest ?ps = [parsedPacket ''1'' TX 0 1 7 ''req'']"
    "filter isAck ?ps = [parsedPacket ''2'' RX 1 1 7 ''ack'']" by code_simp+
  note t = pairPackets_accounting[of ?ps]
  from t h1 h4 have m: "mset (map request (pairedPackets (pairPackets ?ps)))
          = mset (map toPacketData (filter isRequest ?ps))
        \<and> mset (map response (pairedPackets (pairPackets ?ps)))
            + mset (unpairedPackets (pairPackets ?ps))
          = mset (map toPacketData (filter isAck ?ps))"
    by blast
  from m have m': "mset (map request (pairedPackets (pairPackets ?ps)))
          = {#toPacketData (parsedPacket ''1'' TX 0 1 7 ''req'')#}
        \<and> mset (map response (pairedPackets (pairPackets ?ps)))
            + mset (unpairedPackets (pairPackets ?ps))
          = {#toPacketData (parsedPacket ''2'' RX 1 1 7 ''ack'')#}"
    unfolding h5 by simp
  from t h1 h2 have c: "singularPackets (pairPackets ?ps) = map toPacketData (filter isSingular ?ps)
     \<and> toPacketData (parsedPacket ''1'' TX 0 1 7 ''req'')
       \<in> request ` set (pairedPackets (pairPackets ?ps))
         \<union> set (unpairedPackets (pairPackets ?ps))
     \<and> toPacketData (parsedPacket ''2'' RX 1 1 7 ''ack'')
       \<in> response ` set (pairedPackets (pairPackets ?ps))
         \<union> set (unpairedPackets (pairPackets ?ps))
     \<and> set (emitted (pairPackets ?ps)) \<subseteq> toPacketData ` set ?ps"
    by simp
  from c h1 h4 m' show ?thesis unfolding h3 by blast
qed

text \<open>
  C2. Two requests with \<open>sequenceID\<close> 7 sent TX, then two responses A and B with
  \<open>sequenceID\<close> 7 received RX. The first request is paired with A, but the response deleted
  from \<open>ackPackets\<close> is B (\<open>matchedIndex\<close> holds the index of the last match): A stays
  eligible and is paired again with the second request, and B is in no output.
\<close>

theorem matching_consumes_last_match:
  "pairPackets
     [parsedPacket ''1'' TX 0 1 7 ''req1'', parsedPacket ''2'' TX 0 1 7 ''req2'',
      parsedPacket ''3'' RX 1 1 7 ''A'', parsedPacket ''4'' RX 1 1 7 ''B'']
   = \<lparr>pairedPackets =
        [\<lparr>request = toPacketData (parsedPacket ''1'' TX 0 1 7 ''req1''),
          response = toPacketData (parsedPacket ''3'' RX 1 1 7 ''A'')\<rparr>,
         \<lparr>request = toPacketData (parsedPacket ''2'' TX 0 1 7 ''req2''),
          response = toPacketData (parsedPacket ''3'' RX 1 1 7 ''A'')\<rparr>],
      unpairedPackets = [],
      singularPackets = []\<rparr>"
  by code_simp

text \<open>
  C3, as stated: no packet with \<open>ackType\<close> 0 is in the paired or unpaired output. It fails
  on a single response (\<open>commandType\<close> 1) with \<open>ackType\<close> 0, which is emitted as unpaired
  and as singular.
\<close>

theorem singular_exclusivity_counterexample:
  "ackType (ParsedData.packet (parsedPacket ''1'' RX 1 0 7 ''ack'')) = 0
   \<and> unpairedPackets (pairPackets [parsedPacket ''1'' RX 1 0 7 ''ack''])
       = [toPacketData (parsedPacket ''1'' RX 1 0 7 ''ack'')]
   \<and> singularPackets (pairPackets [parsedPacket ''1'' RX 1 0 7 ''ack''])
       = [toPacketData (parsedPacket ''1'' RX 1 0 7 ''ack'')]"
  by code_simp

text \<open>
  C3, amended. Every packet with \<open>ackType\<close> 0 is emitted in the singular output, whatever its
  \<open>commandType\<close>. The request of a pair is built from a packet with \<open>commandType\<close> 0 and
  \<open>ackType\<close> other than 0, the response of a pair from a packet with \<open>commandType\<close> 1, and
  an unpaired entry from a packet of one of these two kinds: a packet with \<open>ackType\<close> 0
  is in the paired or unpaired output only as a response (\<open>commandType\<close> 1).
\<close>

theorem singular_exclusivity_amended:
  "singularPackets (pairPackets ps)
     = map toPacketData (filter (\<lambda>p. ackType (ParsedData.packet p) = 0) ps)
   \<and> (\<forall>pr \<in> set (pairedPackets (pairPackets ps)).
        (\<exists>r \<in> set ps. request pr = toPacketData r
            \<and> commandType (ParsedData.packet r) = 0 \<and> ackType (ParsedData.packet r) \<noteq> 0)
        \<and> (\<exists>a \<in> set ps. response pr = toPacketData a
            \<and> commandType (ParsedData.packet a) = 1))
   \<and> (\<forall>u \<in> set (unpairedPackets (pairPackets ps)).
        \<exists>p \<in> set ps. u = toPacketData p
          \<and> (commandType (ParsedData.packet p) = 0 \<and> ackType (ParsedData.packet p) \<noteq> 0
             \<or> commandType (ParsedData.packet p) = 1))"
proof -
  have a: "singularPackets (pairPackets ps)
     = map toPacketData (filter (\<lambda>p. ackType (ParsedData.packet p) = 0) ps)"
    by (simp add: pairPackets_def Let_def isSingular_def[abs_def])
  have b: "\<forall>pr \<in> set (pairedPackets (pairPackets ps)).
        (\<exists>r \<in> set ps. request pr = toPacketData r
            \<and> commandType (ParsedData.packet r) = 0 \<and> ackType (ParsedData.packet r) \<noteq> 0)
        \<and> (\<exists>a \<in> set ps. response pr = toPacketData a
            \<and> commandType (ParsedData.packet a) = 1)"
  proof
    fix pr assume "pr \<in> set (pairedPackets (pairPackets ps))"
    from paired_origin[OF this] show "(\<exists>r \<in> set ps. request pr = toPacketData r
            \<and> commandType (ParsedData.packet r) = 0 \<and> ackType (ParsedData.packet r) \<noteq> 0)
        \<and> (\<exists>a \<in> set ps. response pr = toPacketData a
            \<and> commandType (ParsedData.packet a) = 1)"
      unfolding isRequest_def isAck_def by blast
  qed
  have c: "\<forall>u \<in> set (unpairedPackets (pairPackets ps)).
        \<exists>p \<in> set ps. u = toPacketData p
          \<and> (commandType (ParsedData.packet p) = 0 \<and> ackType (ParsedData.packet p) \<noteq> 0
             \<or> commandType (ParsedData.packet p) = 1)"
  proof
    fix u assume "u \<in> set (unpairedPackets (pairPackets ps))"
    from unpaired_origin[OF this] show "\<exists>p \<in> set ps. u = toPacketData p
          \<and> (commandType (ParsedData.packet p) = 0 \<and> ackType (ParsedData.packet p) \<noteq> 0
             \<or> commandType (ParsedData.packet p) = 1)"
      unfolding isRequest_def isAck_def by blast
  qed
  from a b c show ?thesis by blast
qed

theorem singular_exclusivity_amended_witness:
  "\<lparr>request = toPacketData (parsedPacket ''1'' TX 0 1 7 ''req''),
     response = toPacketData (parsedPacket ''2'' RX 1 0 7 ''ack'')\<rparr>
     \<in> set (pairedPackets (pairPackets
          [parsedPacket ''1'' TX 0 1 7 ''req'', parsedPacket ''2'' RX 1 0 7 ''ack'',
           parsedPacket ''3'' RX 1 0 8 ''late'']))
   \<and> toPacketData (parsedPacket ''3'' RX 1 0 8 ''late'')
     \<in> set (unpairedPackets (pairPackets
          [parsedPacket ''1'' TX 0 1 7 ''req'', parsedPacket ''2'' RX 1 0 7 ''ack'',
           parsedPacket ''3'' RX 1 0 8 ''late'']))
   \<and> singularPackets (pairPackets
        [parsedPacket ''1'' TX 0 1 7 ''req'', parsedPacket ''2'' RX 1 0 7 ''ack'',
         parsedPacket ''3'' RX 1 0 8 ''late''])
     = [toPacketData (parsedPacket ''2'' RX 1 0 7 ''ack''),
        toPacketData (parsedPacket ''3'' RX 1 0 8 ''late'')]
   \<and> (\<exists>r \<in> set [parsedPacket ''1'' TX 0 1 7 ''req'', parsedPacket ''2'' RX 1 0 7 ''ack'',
           parsedPacket ''3'' RX 1 0 8 ''late''].
         toPacketData (parsedPacket ''1'' TX 0 1 7 ''req'') = toPacketData r
         \<and> commandType (ParsedData.packet r) = 0 \<and> ackType (ParsedData.packet r) \<noteq> 0)
   \<and> (\<exists>p \<in> set [parsedPacket ''1'' TX 0 1 7 ''req'', parsedPacket ''2'' RX 1 0 7 ''ack'',
           parsedPacket ''3'' RX 1 0 8 ''late''].
         toPacketData (parsedPacket ''3'' RX 1 0 8 ''late'') = toPacketData p
         \<and> (commandType (ParsedData.packet p) = 0 \<and> ackType (ParsedData.packet p) \<noteq> 0
             \<or> commandType (ParsedData.packet p) = 1))"
proof -
  let ?ps = "[parsedPacket ''1'' TX 0 1 7 ''req'', parsedPacket ''2'' RX 1 0 7 ''ack'',
           parsedPacket ''3'' RX 1 0 8 ''late'']"
  have h1: "\<lparr>request = toPacketData (parsedPacket ''1'' TX 0 1 7 ''req''),
     response = toPacketData (parsedPacket ''2'' RX 1 0 7 ''ack'')\<rparr>
     \<in> set (pairedPackets (pairPackets ?ps))" by code_simp
  have h2: "toPacketData (parsedPacket ''3'' RX 1 0 8 ''late'')
     \<in> set (unpairedPackets (pairPackets ?ps))" by code_simp
  have h3: "map toPacketData (filter (\<lambda>p. ackType (ParsedData.packet p) = 0) ?ps)
     = [toPacketData (parsedPacket ''2'' RX 1 0 7 ''ack''),
        toPacketData (parsedPacket ''3'' RX 1 0 8 ''late'')]" by code_simp
  note t = singular_exclusivity_amended[of ?ps]
  from t have s: "singularPackets (pairPackets ?ps)
     = [toPacketData (parsedPacket ''2'' RX 1 0 7 ''ack''),
        toPacketData (parsedPacket ''3'' RX 1 0 8 ''late'')]"
    unfolding h3 by blast
  from t h1 have r: "\<exists>r \<in> set ?ps.
         request \<lparr>request = toPacketData (parsedPacket ''1'' TX 0 1 7 ''req''),
           response = toPacketData (parsedPacket ''2'' RX 1 0 7 ''ack'')\<rparr> = toPacketData r
         \<and> commandType (ParsedData.packet r) = 0 \<and> ackType (ParsedData.packet r) \<noteq> 0"
    by blast
  from t h2 have u: "\<exists>p \<in> set ?ps.
         toPacketData (parsedPacket ''3'' RX 1 0 8 ''late'') = toPacketData p
         \<and> (commandType (ParsedData.packet p) = 0 \<and> ackType (ParsedData.packet p) \<noteq> 0
             \<or> commandType (ParsedData.packet p) = 1)"
    by blast
  from r have r': "\<exists>r \<in> set ?ps.
         toPacketData (parsedPacket ''1'' TX 0 1 7 ''req'') = toPacketData r
         \<and> commandType (ParsedData.packet r) = 0 \<and> ackType (ParsedData.packet r) \<noteq> 0"
    by simp
  from h1 h2 s r' u show ?thesis by blast
qed


section \<open>Facts about strings and the extraction loop\<close>

lemma startsWith_prefix: "startsWith s t \<longleftrightarrow> prefix t s"
  unfolding startsWith_def
  by (metis append_eq_conv_conj prefix_def)

lemma startsWith_append: "startsWith s t \<Longrightarrow> startsWith (s @ x) t"
  by (simp add: startsWith_prefix prefix_prefix)

lemma indexOf_Some:
  "indexOf s t = Some i \<Longrightarrow> startsWith (drop i s) t \<and> i + length t \<le> length s"
proof (induction s arbitrary: i)
  case Nil
  then show ?case by (simp add: startsWith_def split: if_splits)
next
  case (Cons c s)
  show ?case
  proof (cases "startsWith (c # s) t")
    case True
    with Cons.prems have "i = 0" by simp
    moreover from True have "length t \<le> length (c # s)"
      using prefix_length_le[of t "c # s"] by (simp add: startsWith_prefix)
    ultimately show ?thesis using True by simp
  next
    case False
    with Cons.prems obtain j where j: "indexOf s t = Some j" "i = Suc j" by auto
    from Cons.IH[OF j(1)] j(2) show ?thesis by simp
  qed
qed

lemma indexOf_append:
  "indexOf s t = Some i \<Longrightarrow> indexOf (s @ x) t = Some i"
proof (induction s arbitrary: i)
  case Nil
  then have "t = []" by (simp split: if_splits)
  with Nil show ?case by (cases x) (simp_all add: startsWith_def)
next
  case (Cons c s)
  show ?case
  proof (cases "startsWith (c # s) t")
    case True
    with Cons.prems have "i = 0" by simp
    with True startsWith_append[OF True, of x] show ?thesis by simp
  next
    case False
    with Cons.prems obtain j where j: "indexOf s t = Some j" "i = Suc j" by auto
    from indexOf_Some[OF j(1)] have len: "length t \<le> length (c # s)" by simp
    have "\<not> startsWith ((c # s) @ x) t"
    proof
      assume "startsWith ((c # s) @ x) t"
      then have "take (length t) ((c # s) @ x) = t" by (simp add: startsWith_def)
      moreover have "take (length t) ((c # s) @ x)
          = take (length t) (c # s) @ take (length t - length (c # s)) x"
        by (rule take_append)
      ultimately have "take (length t) (c # s) = t" using len by simp
      with False show False by (simp add: startsWith_def)
    qed
    with Cons.IH[OF j(1)] j(2) show ?thesis by simp
  qed
qed

lemma synchronized_leftOver: "synchronized (leftOver h)"
  by (simp add: synchronized_def leftOver_def)

lemma suffix_leftOver: "suffix (leftOver h) h"
  by (simp add: leftOver_def)

lemma accumulate_synchronized:
  assumes "accumulate current h = Some b" "synchronized current" "h \<noteq> []"
  shows "startsWith b ''55'' \<and> b \<noteq> []"
proof (cases "current = []")
  case True
  with assms(1) obtain i where i: "indexOf h ''55'' = Some i" "b = drop i h"
    by (auto simp: accumulate_def split: option.splits)
  from indexOf_Some[OF i(1)] i(2) show ?thesis
    by (auto simp: startsWith_def)
next
  case False
  with assms(1) have b: "b = current @ h" by (simp add: accumulate_def)
  from False assms(2) have "startsWith current ''55''" by (simp add: synchronized_def)
  from startsWith_append[OF this] b False show ?thesis by simp
qed

lemma accumulate_suffix:
  assumes "accumulate current h = Some b"
  shows "\<exists>chunk. suffix chunk h \<and> b = current @ chunk"
  using assms
  by (auto simp: accumulate_def suffix_drop split: if_splits option.splits)

text \<open>One pass of the loop.\<close>

lemma iteration_Again:
  assumes "iteration dec d t h rs u = Again h' rs' u'"
  shows "\<exists>p0 p. dec h = Some p0 \<and> accepted dec h p0 = Some p \<and> isValid p
           \<and> h' = drop (length_pkt p * 2) h
           \<and> rs' = rs @ [\<lparr>ParsedData.timestamp = t, ParsedData.direction = d,
                            ParsedData.packet = p\<rparr>]
           \<and> u' = Some (leftOver h')"
  using assms
  by (auto simp: iteration_def Let_def split: option.splits if_splits)

lemma iteration_Return:
  assumes "iteration dec d t h rs u = Return (rs', u')"
  shows "(dec h = None \<and> rs' = rs \<and> u' = u)
       \<or> (\<exists>p0 p. dec h = Some p0 \<and> accepted dec h p0 = Some p \<and> \<not> isValid p
           \<and> rs' = rs @ [\<lparr>ParsedData.timestamp = t, ParsedData.direction = d,
                            ParsedData.packet = p\<rparr>]
           \<and> u' = Some (leftOver (drop (length_pkt p * 2) h)))"
  using assms
  by (auto simp: iteration_def Let_def split: option.splits if_splits)

lemma processLoop_Again:
  "iteration dec d t h rs u = Again h' rs' u' \<Longrightarrow>
   processLoop dec d t h rs u = processLoop dec d t h' rs' u'"
  by (subst processLoop.simps) simp

lemma processLoop_Return:
  "iteration dec d t h rs u = Return r \<Longrightarrow> processLoop dec d t h rs u = Some (Inr r)"
  by (subst processLoop.simps) simp

lemma processLoop_Raise:
  "iteration dec d t h rs u = Raise e \<Longrightarrow> processLoop dec d t h rs u = Some (Inl e)"
  by (subst processLoop.simps) simp

lemma processLoop_reached:
  "reached dec d t cur rs0 h rs u \<Longrightarrow>
   processLoop dec d t cur rs0 None = processLoop dec d t h rs u"
  by (induction rule: reached.induct) (simp_all add: processLoop_Again)

lemma reached_updated:
  "reached dec d t cur rs0 h rs u \<Longrightarrow>
   (h = cur \<and> rs = rs0 \<and> u = None)
   \<or> (suffix h cur \<and> u = Some (leftOver h) \<and> length rs0 < length rs \<and> prefix rs0 rs)"
proof (induction rule: reached.induct)
  case firstPass
  then show ?case by simp
next
  case (nextPass h rs u h' rs' u')
  from iteration_Again[OF nextPass.hyps(2)]
  have s: "h' = drop (length_pkt (the (accepted dec h (the (dec h)))) * 2) h"
    "u' = Some (leftOver h')" "\<exists>x. rs' = rs @ [x]"
    by auto
  from s(1) have "suffix h' h" by (metis suffix_drop)
  moreover from nextPass.IH have "suffix h cur" "length rs0 \<le> length rs" "prefix rs0 rs"
    by auto
  ultimately show ?case using s(2,3)
    by (auto intro: suffix_order.trans prefix_order.trans)
qed

text \<open>What a returning call leaves as the latest \<open>updateBuffer\<close> argument.\<close>

lemma processLoop_updated_aux:
  "processLoop dec d t h rs u = Some y \<Longrightarrow>
   \<forall>rs' u'. y = Inr (rs', u') \<longrightarrow>
     (u' = u \<and> rs' = rs) \<or> (\<exists>l. u' = Some l \<and> synchronized l \<and> suffix l h)"
proof (induction rule: processLoop.raw_induct[rotated 1, consumes 1])
  case (1 processLoop dec d t h rs u y)
  show ?case
  proof (intro allI impI)
    fix rs' u' assume y: "y = Inr (rs', u')"
    show "(u' = u \<and> rs' = rs) \<or> (\<exists>l. u' = Some l \<and> synchronized l \<and> suffix l h)"
    proof (cases "iteration dec d t h rs u")
      case (Return r)
      with 1(2) y have r: "iteration dec d t h rs u = Return (rs', u')" by simp
      from iteration_Return[OF r] show ?thesis
        by (metis suffix_leftOver synchronized_leftOver suffix_drop suffix_order.trans)
    next
      case (Raise e)
      with 1(2) y show ?thesis by simp
    next
      case (Again h' rs1 u1)
      with 1(2) have "processLoop dec d t h' rs1 u1 = Some y" by simp
      from 1(1)[OF this] y
      have c: "(u' = u1 \<and> rs' = rs1) \<or> (\<exists>l. u' = Some l \<and> synchronized l \<and> suffix l h')"
        by simp
      from iteration_Again[OF Again]
      have h': "suffix h' h" "u1 = Some (leftOver h')"
        by (auto simp: suffix_drop)
      from c h' show ?thesis
        by (metis suffix_leftOver synchronized_leftOver suffix_order.trans)
    qed
  qed
qed

lemma processLoop_updated:
  "processLoop dec d t h rs u = Some (Inr (rs', u')) \<Longrightarrow>
   (u' = u \<and> rs' = rs) \<or> (\<exists>l. u' = Some l \<and> synchronized l \<and> suffix l h)"
  using processLoop_updated_aux by blast

lemma processLoop_prefix_aux:
  "processLoop dec d t h rs u = Some y \<Longrightarrow> \<forall>rs' u'. y = Inr (rs', u') \<longrightarrow> prefix rs rs'"
proof (induction rule: processLoop.raw_induct[rotated 1, consumes 1])
  case (1 processLoop dec d t h rs u y)
  show ?case
  proof (intro allI impI)
    fix rs' u' assume y: "y = Inr (rs', u')"
    show "prefix rs rs'"
    proof (cases "iteration dec d t h rs u")
      case (Return r)
      with 1(2) y have r: "iteration dec d t h rs u = Return (rs', u')" by simp
      from iteration_Return[OF r] show ?thesis by auto
    next
      case (Raise e)
      with 1(2) y show ?thesis by simp
    next
      case (Again h' rs1 u1)
      with 1(2) have "processLoop dec d t h' rs1 u1 = Some y" by simp
      from 1(1)[OF this] y have "prefix rs1 rs'" by simp
      moreover from iteration_Again[OF Again] have "prefix rs rs1" by auto
      ultimately show ?thesis by (rule prefix_order.trans[rotated])
    qed
  qed
qed

lemma processLoop_prefix:
  "processLoop dec d t h rs u = Some (Inr (rs', u')) \<Longrightarrow> prefix rs rs'"
  using processLoop_prefix_aux by blast

lemma prefix_snoc_take:
  assumes "prefix (rs @ [x]) rs'"
  shows "take (Suc (length rs)) rs' = rs @ [x]"
proof -
  from assms obtain zs where "rs' = (rs @ [x]) @ zs" by (auto simp: prefix_def)
  then show ?thesis by simp
qed

lemma accepted_take_all:
  assumes "fromHexString hexString = Some decoded"
  shows "accepted fromHexString hexString decoded =
           (if \<not> isValid decoded \<and> length_pkt decoded * 2 < length hexString
            then fromHexString (take (length_pkt decoded * 2) hexString)
            else Some decoded)"
proof (cases "length_pkt decoded * 2 < length hexString")
  case True
  then show ?thesis by (simp add: accepted_def)
next
  case False
  then have "take (length_pkt decoded * 2) hexString = hexString" by simp
  with assms False show ?thesis by (simp add: accepted_def)
qed

lemma current_set_same [simp]:
  "currentHexString d (setCurrentHexString d b st) = b"
  by (cases d) (simp_all add: currentHexString_def setCurrentHexString_def)

lemma current_set_other [simp]:
  "d' \<noteq> d \<Longrightarrow> currentHexString d' (setCurrentHexString d b st) = currentHexString d' st"
  by (cases d; cases d') (simp_all add: currentHexString_def setCurrentHexString_def)

lemma current_results [simp]:
  "currentHexString d (st\<lparr>results := r\<rparr>) = currentHexString d st"
  by (cases d) (simp_all add: currentHexString_def)

lemma current_processed [simp]:
  "currentHexString d (st\<lparr>processed := n\<rparr>) = currentHexString d st"
  by (cases d) (simp_all add: currentHexString_def)

lemma current_skipped [simp]:
  "currentHexString d (st\<lparr>skipped := n\<rparr>) = currentHexString d st"
  by (cases d) (simp_all add: currentHexString_def)

lemma set_current_id:
  "setCurrentHexString d (currentHexString d st) st = st"
  by (cases d) (simp_all add: currentHexString_def setCurrentHexString_def)

lemma bufInv_current: "bufInv st \<longleftrightarrow> (\<forall>d. synchronized (currentHexString d st))"
proof
  assume "bufInv st"
  then show "\<forall>d. synchronized (currentHexString d st)"
    by (auto simp: bufInv_def currentHexString_def split: direction.splits)
next
  assume a: "\<forall>d. synchronized (currentHexString d st)"
  from a[rule_format, of RX] a[rule_format, of TX] show "bufInv st"
    by (simp add: bufInv_def currentHexString_def)
qed

text \<open>What \<open>receive\<close> hands on.\<close>

lemma receive_Extract:
  assumes "receive st row = Extract st' d t"
  shows "row \<noteq> [] \<and> row ! 0 = ''0'' \<and> 11 \<le> length row
         \<and> (includes_str (row ! 9) ''IN'' \<or> includes_str (row ! 9) ''OUT'')
         \<and> d = (if includes_str (row ! 9) ''IN'' then RX else TX)
         \<and> t = row ! 3
         \<and> removeSpaces (row ! 10) \<noteq> []
         \<and> (\<exists>b. accumulate (currentHexString d st) (removeSpaces (row ! 10)) = Some b
                \<and> b \<noteq> [] \<and> st' = setCurrentHexString d b st)"
  using assms
  by (simp add: receive_def Let_def split: if_splits option.splits)

lemma receive_Skip:
  assumes "receive st row = Skip st'"
  shows "st' = st"
proof -
  have e: "\<And>d b. accumulate (currentHexString d st) (removeSpaces (row ! 10)) = Some b \<Longrightarrow>
      b = [] \<Longrightarrow> setCurrentHexString d b st = st"
  proof -
    fix d b
    assume "accumulate (currentHexString d st) (removeSpaces (row ! 10)) = Some b" "b = []"
    then have "currentHexString d st = []"
      by (auto simp: accumulate_def split: if_splits option.splits)
    with \<open>b = []\<close> set_current_id[of d st] show "setCurrentHexString d b st = st" by simp
  qed
  from assms show ?thesis
    by (auto simp: receive_def Let_def e split: if_splits option.splits)
qed

lemma onData_Skip:
  "receive st row = Skip st' \<Longrightarrow>
   onData dec st row = Some (Inr (st\<lparr>skipped := skipped st + 1\<rparr>))"
  using receive_Skip[of st row st'] by (simp add: onData_def)

lemma onData_Extract:
  assumes r: "receive st row = Extract st1 d t"
    and o: "onData dec st row = Some (Inr st')"
  shows "\<exists>rs' u. processBuffer dec (currentHexString d st1) d t (results st1)
                    = Some (Inr (rs', u))
           \<and> st' = (setCurrentHexString d (carryOver (currentHexString d st1) u)
                      (st1\<lparr>results := rs'\<rparr>))\<lparr>processed := processed st1 + 1\<rparr>"
  using o unfolding onData_def r
  by (auto split: option.splits sum.splits prod.splits)

lemma carryOver_processBuffer:
  assumes "processBuffer dec b d t rs = Some (Inr (rs', u))"
  shows "carryOver b u = b \<or> (synchronized (carryOver b u) \<and> suffix (carryOver b u) b)"
proof -
  from assms have "processLoop dec d t b rs None = Some (Inr (rs', u))"
    by (simp add: processBuffer_def)
  from processLoop_updated[OF this] show ?thesis
    by (auto simp: carryOver_def)
qed


lemma onData_current:
  assumes inv: "bufInv st" and o: "onData dec st row = Some (Inr st')"
  shows "(currentHexString d st' = currentHexString d st
          \<or> (\<exists>chunk. suffix chunk (removeSpaces (row ! 10))
                \<and> suffix (currentHexString d st') (currentHexString d st @ chunk)))
         \<and> synchronized (currentHexString d st')"
proof (cases "receive st row")
  case (Skip st1)
  from onData_Skip[OF Skip, of dec] o have "st' = st\<lparr>skipped := skipped st + 1\<rparr>" by simp
  with inv show ?thesis by (simp add: bufInv_current)
next
  case (Throw e)
  with o show ?thesis by (simp add: onData_def)
next
  case (Extract st1 d1 t)
  from receive_Extract[OF Extract] obtain b where
    b: "accumulate (currentHexString d1 st) (removeSpaces (row ! 10)) = Some b"
       "st1 = setCurrentHexString d1 b st" "removeSpaces (row ! 10) \<noteq> []"
    by blast
  from onData_Extract[OF Extract o] b(2) obtain rs' u where
    p: "processBuffer dec b d1 t (results st1) = Some (Inr (rs', u))"
    and st': "st' = (setCurrentHexString d1 (carryOver b u)
                      (st1\<lparr>results := rs'\<rparr>))\<lparr>processed := processed st1 + 1\<rparr>"
    by auto
  show ?thesis
  proof (cases "d = d1")
    case False
    with st' b(2) have "currentHexString d st' = currentHexString d st" by simp
    with inv show ?thesis by (simp add: bufInv_current)
  next
    case True
    with st' have c: "currentHexString d st' = carryOver b u" by simp
    from inv have "synchronized (currentHexString d1 st)" by (simp add: bufInv_current)
    from accumulate_synchronized[OF b(1) this b(3)]
    have sb: "synchronized b" by (simp add: synchronized_def)
    from accumulate_suffix[OF b(1)] obtain chunk where
      chunk: "suffix chunk (removeSpaces (row ! 10))" "b = currentHexString d1 st @ chunk"
      by blast
    from carryOver_processBuffer[OF p]
    have "synchronized (carryOver b u) \<and> suffix (carryOver b u) b"
      using sb by auto
    with c chunk True show ?thesis by auto
  qed
qed

lemma onData_bufInv:
  "bufInv st \<Longrightarrow> onData dec st row = Some (Inr st') \<Longrightarrow> bufInv st'"
  using onData_current[of st dec row st'] by (simp add: bufInv_current)

lemma run_bufInv:
  "bufInv st \<Longrightarrow> run dec st rows = Some (Inr st') \<Longrightarrow> bufInv st'"
proof (induction rows arbitrary: st)
  case Nil
  then show ?case by simp
next
  case (Cons row rows)
  from Cons.prems(2) obtain st1 where
    s: "onData dec st row = Some (Inr st1)" "run dec st1 rows = Some (Inr st')"
    by (auto split: option.splits sum.splits)
  from onData_bufInv[OF Cons.prems(1) s(1)] have "bufInv st1" .
  from Cons.IH[OF this s(2)] show ?case .
qed

lemma bufInv_initialState: "bufInv initialState"
  by (simp add: bufInv_def initialState_def synchronized_def)

lemma removeSpaces_append: "removeSpaces (a @ b) = removeSpaces a @ removeSpaces b"
  by (simp add: removeSpaces_def)

lemma accumulate_append:
  assumes "accumulate current h = Some b"
  shows "accumulate current (h @ x) = Some (b @ x)"
proof (cases "current = []")
  case True
  with assms obtain i where i: "indexOf h ''55'' = Some i" "b = drop i h"
    by (auto simp: accumulate_def split: option.splits)
  from indexOf_Some[OF i(1)] have "i \<le> length h" by simp
  with indexOf_append[OF i(1), of x] i(2) True show ?thesis
    by (simp add: accumulate_def)
next
  case False
  with assms show ?thesis by (simp add: accumulate_def)
qed

lemma accumulate_nonempty:
  assumes "accumulate current h = Some b" "h \<noteq> []"
  shows "b \<noteq> []"
proof (cases "current = []")
  case True
  with assms obtain i where i: "indexOf h ''55'' = Some i" "b = drop i h"
    by (auto simp: accumulate_def split: option.splits)
  from indexOf_Some[OF i(1)] i(2) show ?thesis by simp
next
  case False
  with assms show ?thesis by (auto simp: accumulate_def)
qed

text \<open>A row of direction \<open>d\<close> whose chunk is appended.\<close>

lemma receive_traceRow:
  assumes tok: "includes_str tok ''IN'' \<or> includes_str tok ''OUT''"
    and d: "d = (if includes_str tok ''IN'' then RX else TX)"
  shows "receive st (traceRow ''0'' t tok c) =
     (if removeSpaces c = [] then Skip st
      else (case accumulate (currentHexString d st) (removeSpaces c) of
              None \<Rightarrow> Skip st
            | Some b \<Rightarrow> if b = [] then Skip (setCurrentHexString d b st)
                        else Extract (setCurrentHexString d b st) d t))"
  using tok d
  by (simp add: receive_def traceRow_def Let_def split: option.splits)

lemma processBuffer_None:
  "dec b = None \<Longrightarrow> processBuffer dec b d t rs = Some (Inr (rs, None))"
  by (simp add: processBuffer_def processLoop_Return iteration_def)


text \<open>
  The loop ends whenever the decoder rejects the empty buffer and every valid packet has a
  length above 0: each further pass starts on a strictly shorter buffer.
\<close>

lemma processLoop_returns:
  assumes e: "dec [] = None"
    and v: "\<And>s p. dec s = Some p \<Longrightarrow> isValid p \<Longrightarrow> 0 < length_pkt p"
  shows "\<exists>r. processLoop dec d t h rs u = Some r"
proof (induction "length h" arbitrary: h rs u rule: less_induct)
  case less
  show ?case
  proof (cases "iteration dec d t h rs u")
    case (Return r)
    then show ?thesis by (simp add: processLoop_Return)
  next
    case (Raise x)
    then show ?thesis by (simp add: processLoop_Raise)
  next
    case (Again h' rs' u')
    from iteration_Again[OF Again] obtain p0 p where
      p: "dec h = Some p0" "accepted dec h p0 = Some p" "isValid p"
         "h' = drop (length_pkt p * 2) h"
      by blast
    from p(1) e have ne: "h \<noteq> []" by auto
    from p(2) have "p = p0 \<or> (\<exists>s. dec s = Some p)"
      by (auto simp: accepted_def split: if_splits)
    with p(1) have "\<exists>s. dec s = Some p" by auto
    with v p(3) have "0 < length_pkt p" by blast
    with ne p(4) have "length h' < length h" by simp
    from less[OF this] obtain r where "processLoop dec d t h' rs' u' = Some r" by blast
    with processLoop_Again[OF Again] show ?thesis by simp
  qed
qed

lemma processBuffer_returns:
  assumes "dec [] = None"
    and "\<And>s p. dec s = Some p \<Longrightarrow> isValid p \<Longrightarrow> 0 < length_pkt p"
  shows "\<exists>r. processBuffer dec cur d t rs = Some r"
  unfolding processBuffer_def using assms by (rule processLoop_returns)



lemma consumed_Nil [simp]: "consumed [] = 0"
  by (simp add: consumed_def)

lemma consumed_snoc:
  "consumed (new @ [x]) = consumed new + length_pkt (ParsedData.packet x) * 2"
  by (simp add: consumed_def)

lemma consumed_Cons:
  "consumed (x # new) = length_pkt (ParsedData.packet x) * 2 + consumed new"
  by (simp add: consumed_def)


text \<open>Where a pass of a call stands: what was pushed, what was dropped from the buffer.\<close>

lemma reached_consumed:
  "reached dec d t cur rs0 h rs u \<Longrightarrow>
   \<exists>new. rs = rs0 @ new \<and> h = drop (consumed new) cur
      \<and> (\<forall>p \<in> set new. isValid (ParsedData.packet p))
      \<and> (new = [] \<longrightarrow> u = None) \<and> (new \<noteq> [] \<longrightarrow> u = Some (leftOver h))"
proof (induction rule: reached.induct)
  case firstPass
  show ?case by simp
next
  case (nextPass h rs u h' rs' u')
  from nextPass.IH obtain new where
    new: "rs = rs0 @ new" "h = drop (consumed new) cur"
      "\<forall>p \<in> set new. isValid (ParsedData.packet p)"
    by blast
  from iteration_Again[OF nextPass.hyps(2)] obtain p where
    p: "isValid p" "h' = drop (length_pkt p * 2) h"
       "rs' = rs @ [\<lparr>ParsedData.timestamp = t, ParsedData.direction = d,
                      ParsedData.packet = p\<rparr>]"
       "u' = Some (leftOver h')"
    by blast
  let ?x = "\<lparr>ParsedData.timestamp = t, ParsedData.direction = d, ParsedData.packet = p\<rparr>"
  have "rs' = rs0 @ (new @ [?x])" using new(1) p(3) by simp
  moreover have "h' = drop (consumed (new @ [?x])) cur"
    using new(2) p(2) by (simp add: consumed_snoc add.commute)
  moreover have "\<forall>q \<in> set (new @ [?x]). isValid (ParsedData.packet q)"
    using new(3) p(1) by simp
  ultimately show ?case using p(4) by blast
qed

lemma processLoop_consumed_aux:
  "processLoop dec d t h rs u = Some y \<Longrightarrow>
   \<forall>rs' u'. y = Inr (rs', u') \<longrightarrow>
     (\<exists>new. rs' = rs @ new \<and> (new = [] \<longrightarrow> u' = u)
        \<and> (new \<noteq> [] \<longrightarrow> u' = Some (leftOver (drop (consumed new) h))))"
proof (induction rule: processLoop.raw_induct[rotated 1, consumes 1])
  case (1 processLoop dec d t h rs u y)
  show ?case
  proof (intro allI impI)
    fix rs' u' assume y: "y = Inr (rs', u')"
    show "\<exists>new. rs' = rs @ new \<and> (new = [] \<longrightarrow> u' = u)
        \<and> (new \<noteq> [] \<longrightarrow> u' = Some (leftOver (drop (consumed new) h)))"
    proof (cases "iteration dec d t h rs u")
      case (Return r)
      with 1(2) y have r: "iteration dec d t h rs u = Return (rs', u')" by simp
      from iteration_Return[OF r] show ?thesis
      proof
        assume "dec h = None \<and> rs' = rs \<and> u' = u"
        then have "rs' = rs @ [] \<and> ([] = [] \<longrightarrow> u' = u)" by simp
        then show ?thesis by blast
      next
        assume "\<exists>p0 p. dec h = Some p0 \<and> accepted dec h p0 = Some p \<and> \<not> isValid p
           \<and> rs' = rs @ [\<lparr>ParsedData.timestamp = t, ParsedData.direction = d,
                            ParsedData.packet = p\<rparr>]
           \<and> u' = Some (leftOver (drop (length_pkt p * 2) h))"
        then obtain p where p: "rs' = rs @ [\<lparr>ParsedData.timestamp = t, ParsedData.direction = d,
                            ParsedData.packet = p\<rparr>]"
           "u' = Some (leftOver (drop (length_pkt p * 2) h))"
          by blast
        let ?x = "\<lparr>ParsedData.timestamp = t, ParsedData.direction = d, ParsedData.packet = p\<rparr>"
        have "consumed [?x] = length_pkt p * 2" by (simp add: consumed_def)
        with p have "rs' = rs @ [?x] \<and> u' = Some (leftOver (drop (consumed [?x]) h))" by simp
        then show ?thesis by blast
      qed
    next
      case (Raise e)
      with 1(2) y show ?thesis by simp
    next
      case (Again h1 rs1 u1)
      with 1(2) have "processLoop dec d t h1 rs1 u1 = Some y" by simp
      from 1(1)[OF this] y obtain new1 where
        n1: "rs' = rs1 @ new1" "new1 = [] \<longrightarrow> u' = u1"
            "new1 \<noteq> [] \<longrightarrow> u' = Some (leftOver (drop (consumed new1) h1))"
        by blast
      from iteration_Again[OF Again] obtain p where
        p: "h1 = drop (length_pkt p * 2) h"
           "rs1 = rs @ [\<lparr>ParsedData.timestamp = t, ParsedData.direction = d,
                         ParsedData.packet = p\<rparr>]"
           "u1 = Some (leftOver h1)"
        by blast
      let ?x = "\<lparr>ParsedData.timestamp = t, ParsedData.direction = d, ParsedData.packet = p\<rparr>"
      have a: "rs' = rs @ (?x # new1)" using n1(1) p(2) by simp
      have "drop (consumed new1) h1 = drop (consumed (?x # new1)) h"
        using p(1) by (simp add: consumed_Cons add.commute)
      moreover have "new1 = [] \<Longrightarrow> h1 = drop (consumed (?x # new1)) h"
        using p(1) by (simp add: consumed_Cons)
      ultimately have "u' = Some (leftOver (drop (consumed (?x # new1)) h))"
        using n1(2,3) p(3) by (cases "new1 = []") simp_all
      with a show ?thesis by blast
    qed
  qed
qed

lemma processBuffer_consumed:
  assumes "processBuffer dec b d t rs = Some (Inr (rs', u))"
  shows "\<exists>new. rs' = rs @ new
     \<and> carryOver b u = (if new = [] then b else leftOver (drop (consumed new) b))"
proof -
  from assms have "processLoop dec d t b rs None = Some (Inr (rs', u))"
    by (simp add: processBuffer_def)
  from processLoop_consumed_aux[OF this] obtain new where
    "rs' = rs @ new" "new = [] \<longrightarrow> u = None"
    "new \<noteq> [] \<longrightarrow> u = Some (leftOver (drop (consumed new) b))"
    by blast
  then have "rs' = rs @ new
     \<and> carryOver b u = (if new = [] then b else leftOver (drop (consumed new) b))"
    by (auto simp: carryOver_def)
  then show ?thesis by blast
qed


lemma onData_lifecycle:
  assumes inv: "bufInv st" and o: "onData dec st row = Some (Inr st')"
  shows "currentHexString d st' = currentHexString d st
         \<or> (\<exists>chunk new. suffix chunk (removeSpaces (row ! 10))
               \<and> results st' = results st @ new
               \<and> currentHexString d st'
                 = (if new = [] then currentHexString d st @ chunk
                    else leftOver (drop (consumed new) (currentHexString d st @ chunk))))"
proof (cases "receive st row")
  case (Skip st1)
  from onData_Skip[OF Skip, of dec] o have "st' = st\<lparr>skipped := skipped st + 1\<rparr>" by simp
  then show ?thesis by simp
next
  case (Throw e)
  with o show ?thesis by (simp add: onData_def)
next
  case (Extract st1 d1 t)
  from receive_Extract[OF Extract] obtain b where
    b: "accumulate (currentHexString d1 st) (removeSpaces (row ! 10)) = Some b"
       "st1 = setCurrentHexString d1 b st"
    by blast
  have rs1: "results st1 = results st"
    unfolding b(2) by (cases d1) (simp_all add: setCurrentHexString_def)
  from onData_Extract[OF Extract o] b(2) rs1 obtain rs' u where
    p: "processBuffer dec b d1 t (results st) = Some (Inr (rs', u))"
    and st': "st' = (setCurrentHexString d1 (carryOver b u)
                      (st1\<lparr>results := rs'\<rparr>))\<lparr>processed := processed st1 + 1\<rparr>"
    by auto
  show ?thesis
  proof (cases "d = d1")
    case False
    with st' b(2) show ?thesis by simp
  next
    case True
    with st' have c: "currentHexString d st' = carryOver b u" by simp
    have r: "results st' = rs'"
      unfolding st' by (cases d1) (simp_all add: setCurrentHexString_def)
    from accumulate_suffix[OF b(1)] obtain chunk where
      chunk: "suffix chunk (removeSpaces (row ! 10))" "b = currentHexString d1 st @ chunk"
      by blast
    from processBuffer_consumed[OF p] obtain new where
      new: "rs' = results st @ new"
        "carryOver b u = (if new = [] then b else leftOver (drop (consumed new) b))"
      by blast
    from c r chunk new True show ?thesis by auto
  qed
qed





subsection \<open>Runs compared without their timestamps\<close>

text \<open>One pass, from what is accepted.\<close>

lemma iteration_acceptedAt_valid:
  assumes "acceptedAt dec h = Some p" "isValid p"
  shows "iteration dec d t h rs u
     = Again (drop (length_pkt p * 2) h)
         (rs @ [\<lparr>ParsedData.timestamp = t, ParsedData.direction = d, ParsedData.packet = p\<rparr>])
         (Some (leftOver (drop (length_pkt p * 2) h)))"
  using assms
  by (auto simp: acceptedAt_def iteration_def Let_def split: option.splits)

lemma iteration_Again_acceptedAt:
  assumes "iteration dec d t h rs u = Again h' rs' u'"
  shows "\<exists>p. acceptedAt dec h = Some p \<and> isValid p
     \<and> h' = drop (length_pkt p * 2) h
     \<and> rs' = rs @ [\<lparr>ParsedData.timestamp = t, ParsedData.direction = d,
                      ParsedData.packet = p\<rparr>]
     \<and> u' = Some (leftOver h')"
  using iteration_Again[OF assms] by (auto simp: acceptedAt_def)

text \<open>What a pass does is the same whatever the timestamp, the array and the last update.\<close>

lemma iteration_Return_any:
  assumes "iteration dec d t h rs u = Return (rs1, u1)"
  shows "\<exists>new new'. iteration dec d t' h rs' u' = Return (rs' @ new', if new = [] then u' else u1)
     \<and> rs1 = rs @ new \<and> map untimed new = map untimed new'
     \<and> (new = [] \<longrightarrow> u1 = u)"
proof -
  from iteration_Return[OF assms] show ?thesis
  proof
    assume a: "dec h = None \<and> rs1 = rs \<and> u1 = u"
    then have "iteration dec d t' h rs' u' = Return (rs' @ [], if ([]::ParsedData list) = [] then u' else u1)"
      by (simp add: iteration_def)
    moreover from a have "rs1 = rs @ []" "u1 = u" by simp_all
    ultimately show ?thesis by (metis list.map_disc_iff)
  next
    assume "\<exists>p0 p. dec h = Some p0 \<and> accepted dec h p0 = Some p \<and> \<not> isValid p
           \<and> rs1 = rs @ [\<lparr>ParsedData.timestamp = t, ParsedData.direction = d,
                            ParsedData.packet = p\<rparr>]
           \<and> u1 = Some (leftOver (drop (length_pkt p * 2) h))"
    then obtain p0 p where p: "dec h = Some p0" "accepted dec h p0 = Some p" "\<not> isValid p"
      "rs1 = rs @ [\<lparr>ParsedData.timestamp = t, ParsedData.direction = d,
                            ParsedData.packet = p\<rparr>]"
      "u1 = Some (leftOver (drop (length_pkt p * 2) h))"
      by blast
    let ?x = "\<lparr>ParsedData.timestamp = t, ParsedData.direction = d, ParsedData.packet = p\<rparr>"
    let ?x' = "\<lparr>ParsedData.timestamp = t', ParsedData.direction = d, ParsedData.packet = p\<rparr>"
    from p(1,2,3,5) have "iteration dec d t' h rs' u'
        = Return (rs' @ [?x'], if [?x] = [] then u' else u1)"
      by (simp add: iteration_def Let_def)
    moreover have "map untimed [?x] = map untimed [?x']" by (simp add: untimed_def)
    ultimately show ?thesis using p(4) by blast
  qed
qed

lemma iteration_Raise_any:
  assumes "iteration dec d t h rs u = Raise e"
  shows "iteration dec d t' h rs' u' = Raise e"
  using assms
  by (auto simp: iteration_def Let_def split: option.splits if_splits)

lemma iteration_Again_any:
  assumes "iteration dec d t h rs u = Again h1 rs1 u1"
  shows "\<exists>x x'. iteration dec d t' h rs' u' = Again h1 (rs' @ [x']) u1
     \<and> rs1 = rs @ [x] \<and> untimed x = untimed x'"
proof -
  from iteration_Again_acceptedAt[OF assms] obtain p where
    p: "acceptedAt dec h = Some p" "isValid p" "h1 = drop (length_pkt p * 2) h"
       "rs1 = rs @ [\<lparr>ParsedData.timestamp = t, ParsedData.direction = d,
                      ParsedData.packet = p\<rparr>]"
       "u1 = Some (leftOver h1)"
    by blast
  from iteration_acceptedAt_valid[OF p(1,2), of d t' rs' u'] p(3,5)
  have "iteration dec d t' h rs' u'
      = Again h1 (rs' @ [\<lparr>ParsedData.timestamp = t', ParsedData.direction = d,
                            ParsedData.packet = p\<rparr>]) u1"
    by simp
  moreover have "untimed \<lparr>ParsedData.timestamp = t, ParsedData.direction = d,
                      ParsedData.packet = p\<rparr>
      = untimed \<lparr>ParsedData.timestamp = t', ParsedData.direction = d,
                            ParsedData.packet = p\<rparr>"
    by (simp add: untimed_def)
  ultimately show ?thesis using p(4) by blast
qed



text \<open>So the whole loop differs in timestamps only.\<close>

lemma processLoop_similar_aux:
  "processLoop dec d t h rs u = Some y \<Longrightarrow>
   \<forall>t' rs' u'. \<exists>y'. processLoop dec d t' h rs' u' = Some y' \<and> similar rs u rs' u' y y'"
proof (induction rule: processLoop.raw_induct[rotated 1, consumes 1])
  case (1 processLoop dec d t h rs u y)
  show ?case
  proof (intro allI)
    fix t' rs' u'
    show "\<exists>y'. Spec2Isabelle.processLoop dec d t' h rs' u' = Some y' \<and> similar rs u rs' u' y y'"
    proof (cases "iteration dec d t h rs u")
      case (Return r)
      obtain rs1 u1 where r: "r = (rs1, u1)" by (cases r)
      from Return r 1(2) have y: "y = Inr (rs1, u1)" by simp
      from iteration_Return_any[OF Return[unfolded r], of t' rs' u'] obtain new new' where
        n: "iteration dec d t' h rs' u' = Return (rs' @ new', if new = [] then u' else u1)"
           "rs1 = rs @ new" "map untimed new = map untimed new'" "new = [] \<longrightarrow> u1 = u"
        by blast
      from processLoop_Return[OF n(1)]
      have "Spec2Isabelle.processLoop dec d t' h rs' u'
          = Some (Inr (rs' @ new', if new = [] then u' else u1))" .
      moreover have "similar rs u rs' u' y (Inr (rs' @ new', if new = [] then u' else u1))"
        unfolding similar_def y using n(2,3,4) by auto
      ultimately show ?thesis by blast
    next
      case (Raise e)
      with 1(2) have y: "y = Inl e" by simp
      from processLoop_Raise[OF iteration_Raise_any[OF Raise, of t' rs' u']]
      have "Spec2Isabelle.processLoop dec d t' h rs' u' = Some (Inl e)" .
      then show ?thesis unfolding similar_def y by blast
    next
      case (Again h1 rs1 u1)
      with 1(2) have "processLoop dec d t h1 rs1 u1 = Some y" by simp
      from 1(1)[OF this] have ih: "\<And>t' rs' u'. \<exists>y'.
          Spec2Isabelle.processLoop dec d t' h1 rs' u' = Some y' \<and> similar rs1 u1 rs' u' y y'"
        by blast
      from iteration_Again_any[OF Again, of t' rs' u'] obtain x x' where
        x: "iteration dec d t' h rs' u' = Again h1 (rs' @ [x']) u1"
           "rs1 = rs @ [x]" "untimed x = untimed x'"
        by blast
      from ih[of t' "rs' @ [x']" u1] obtain y' where
        y': "Spec2Isabelle.processLoop dec d t' h1 (rs' @ [x']) u1 = Some y'"
            "similar rs1 u1 (rs' @ [x']) u1 y y'"
        by blast
      from processLoop_Again[OF x(1)] y'(1)
      have "Spec2Isabelle.processLoop dec d t' h rs' u' = Some y'" by simp
      moreover have "similar rs u rs' u' y y'"
      proof -
        from y'(2) consider (err) e where "y = Inl e" "y' = Inl e"
          | (ok) new new' v v' where "y = Inr (rs1 @ new, v)" "y' = Inr ((rs' @ [x']) @ new', v')"
              "map untimed new = map untimed new'" "new = [] \<longrightarrow> v = u1 \<and> v' = u1"
              "new \<noteq> [] \<longrightarrow> v = v'"
          unfolding similar_def by blast
        then show ?thesis
        proof cases
          case err
          then show ?thesis unfolding similar_def by blast
        next
          case ok
          from ok(4,5) have v: "v = v'" by (cases "new = []") simp_all
          have "y = Inr (rs @ (x # new), v)" using ok(1) x(2) by simp
          moreover have "y' = Inr (rs' @ (x' # new'), v')" using ok(2) by simp
          moreover have "map untimed (x # new) = map untimed (x' # new')"
            using ok(3) x(3) by simp
          moreover have "x # new \<noteq> []" by simp
          ultimately show ?thesis unfolding similar_def using v by blast
        qed
      qed
      ultimately show ?thesis by blast
    qed
  qed
qed

lemma processLoop_similar:
  assumes "processLoop dec d t h rs u = Some y"
  shows "\<exists>y'. processLoop dec d t' h rs' u' = Some y' \<and> similar rs u rs' u' y y'"
  using processLoop_similar_aux[OF assms] by blast

lemma processLoop_None_any:
  assumes "processLoop dec d t h rs u = None"
  shows "processLoop dec d t' h rs' u' = None"
proof (cases "processLoop dec d t' h rs' u'")
  case None
  then show ?thesis .
next
  case (Some y')
  from processLoop_similar[OF Some, of t rs u] assms show ?thesis by simp
qed

text \<open>
  Hence the outcome seen without timestamps is the same for two calls of the loop on one
  buffer whose arrays agree up to timestamps and whose buffers are the same should no
  packet be pushed.
\<close>

lemma finished_similar:
  assumes rs: "map untimed rs = map untimed rs'"
    and c: "carryOver b u = carryOver b' u'"
  shows "finished d b bufs (processLoop dec d t h rs u)
       = finished d b' bufs (processLoop dec d t' h rs' u')"
proof (cases "processLoop dec d t h rs u")
  case None
  from processLoop_None_any[OF None, of t' rs' u'] None show ?thesis
    by (simp add: finished_def)
next
  case (Some y)
  from processLoop_similar[OF Some, of t' rs' u'] obtain y' where
    y': "processLoop dec d t' h rs' u' = Some y'" "similar rs u rs' u' y y'"
    by blast
  from y'(2) consider (err) e where "y = Inl e" "y' = Inl e"
    | (ok) new new' v v' where "y = Inr (rs @ new, v)" "y' = Inr (rs' @ new', v')"
        "map untimed new = map untimed new'" "new = [] \<longrightarrow> v = u \<and> v' = u'"
        "new \<noteq> [] \<longrightarrow> v = v'"
    unfolding similar_def by blast
  then show ?thesis
  proof cases
    case err
    with Some y'(1) show ?thesis by (simp add: finished_def)
  next
    case ok
    have "carryOver b v = carryOver b' v'"
    proof (cases "new = []")
      case True
      with ok(4) c show ?thesis by simp
    next
      case False
      with ok(5) have "v = v'" by simp
      moreover from False ok(3) have "new' \<noteq> []" by auto
      ultimately have "v = v'" by simp
      from Some ok(1) have "processLoop dec d t h rs u = Some (Inr (rs @ new, v))" by simp
      from processLoop_updated[OF this] False obtain l where l: "v = Some l" by auto
      from l \<open>v = v'\<close> have "v' = Some l" by simp
      with l show ?thesis by (simp add: carryOver_def)
    qed
    with Some y'(1) ok(1,2,3) rs show ?thesis by (cases d) (simp_all add: finished_def)
  qed
qed

text \<open>
  A call that returns and pushed valid packets only returned because the decoder threw
  at a pass it reached.
\<close>

lemma returned_at_failure_aux:
  "processLoop dec d t h rs u = Some y \<Longrightarrow>
   \<forall>b rs0 rs' u'. reached dec d t b rs0 h rs u \<and> y = Inr (rs', u')
       \<and> (\<forall>p \<in> set (drop (length rs0) rs'). isValid (ParsedData.packet p))
     \<longrightarrow> (\<exists>r. reached dec d t b rs0 r rs' u' \<and> dec r = None)"
proof (induction rule: processLoop.raw_induct[rotated 1, consumes 1])
  case (1 processLoop dec d t h rs u y)
  show ?case
  proof (intro allI impI, elim conjE)
    fix b rs0 rs' u'
    assume re: "reached dec d t b rs0 h rs u" and y: "y = Inr (rs', u')"
      and v: "\<forall>p \<in> set (drop (length rs0) rs'). isValid (ParsedData.packet p)"
    from reached_consumed[OF re] obtain new where new: "rs = rs0 @ new" by blast
    show "\<exists>r. reached dec d t b rs0 r rs' u' \<and> dec r = None"
    proof (cases "iteration dec d t h rs u")
      case (Return r)
      with 1(2) y have r: "iteration dec d t h rs u = Return (rs', u')" by simp
      from iteration_Return[OF r] show ?thesis
      proof
        assume "dec h = None \<and> rs' = rs \<and> u' = u"
        with re show ?thesis by blast
      next
        assume "\<exists>p0 p. dec h = Some p0 \<and> accepted dec h p0 = Some p \<and> \<not> isValid p
           \<and> rs' = rs @ [\<lparr>ParsedData.timestamp = t, ParsedData.direction = d,
                            ParsedData.packet = p\<rparr>]
           \<and> u' = Some (leftOver (drop (length_pkt p * 2) h))"
        then obtain p where p: "\<not> isValid p"
          "rs' = rs @ [\<lparr>ParsedData.timestamp = t, ParsedData.direction = d,
                            ParsedData.packet = p\<rparr>]"
          by blast
        from p(2) new have "\<lparr>ParsedData.timestamp = t, ParsedData.direction = d,
                            ParsedData.packet = p\<rparr> \<in> set (drop (length rs0) rs')"
          by simp
        with v p(1) show ?thesis by fastforce
      qed
    next
      case (Raise e)
      with 1(2) y show ?thesis by simp
    next
      case (Again h1 rs1 u1)
      with 1(2) have "processLoop dec d t h1 rs1 u1 = Some y" by simp
      from 1(1)[OF this] have ih: "\<And>b rs0 rs' u'. reached dec d t b rs0 h1 rs1 u1 \<Longrightarrow>
          y = Inr (rs', u') \<Longrightarrow>
          \<forall>p \<in> set (drop (length rs0) rs'). isValid (ParsedData.packet p) \<Longrightarrow>
          \<exists>r. reached dec d t b rs0 r rs' u' \<and> dec r = None"
        by blast
      from nextPass[OF re Again] have "reached dec d t b rs0 h1 rs1 u1" .
      from ih[OF this y v] show ?thesis .
    qed
  qed
qed

lemma returned_at_failure:
  assumes "processBuffer dec b d t rs = Some (Inr (rs', u'))"
    and "\<forall>p \<in> set (drop (length rs) rs'). isValid (ParsedData.packet p)"
  shows "\<exists>r. reached dec d t b rs r rs' u' \<and> dec r = None"
proof -
  from assms(1) have "processLoop dec d t b rs None = Some (Inr (rs', u'))"
    by (simp add: processBuffer_def)
  from returned_at_failure_aux[OF this] firstPass[of dec d t b rs] assms(2)
  show ?thesis by blast
qed

text \<open>
  With a frame-local decoder, the passes reached on a buffer are reached with more data
  behind it.
\<close>

lemma reached_extend:
  assumes fl: "frameLocal dec"
    and rs0: "map untimed rs0 = map untimed rs0'"
  shows "reached dec d t b rs0 h rs u \<Longrightarrow>
     \<exists>rs'. reached dec d t' (b @ x) rs0' (h @ x) rs' (map_option (\<lambda>_. leftOver (h @ x)) u)
        \<and> map untimed rs' = map untimed rs"
proof (induction rule: reached.induct)
  case firstPass
  have "reached dec d t' (b @ x) rs0' (b @ x) rs0' None" by (rule reached.firstPass)
  with rs0 show ?case by auto
next
  case (nextPass h rs u h1 rs1 u1)
  from nextPass.IH obtain rs' where
    rs': "reached dec d t' (b @ x) rs0' (h @ x) rs' (map_option (\<lambda>_. leftOver (h @ x)) u)"
      "map untimed rs' = map untimed rs"
    by blast
  from iteration_Again_acceptedAt[OF nextPass.hyps(2)] obtain p where
    p: "acceptedAt dec h = Some p" "isValid p" "h1 = drop (length_pkt p * 2) h"
       "rs1 = rs @ [\<lparr>ParsedData.timestamp = t, ParsedData.direction = d,
                      ParsedData.packet = p\<rparr>]"
       "u1 = Some (leftOver h1)"
    by blast
  from fl p(1,2) have len: "length_pkt p * 2 \<le> length h"
    and ext: "acceptedAt dec (h @ x) = Some p"
    unfolding frameLocal_def by blast+
  from len p(3) have d: "drop (length_pkt p * 2) (h @ x) = h1 @ x" by simp
  let ?x' = "\<lparr>ParsedData.timestamp = t', ParsedData.direction = d, ParsedData.packet = p\<rparr>"
  from iteration_acceptedAt_valid[OF ext p(2), of d t' rs' "map_option (\<lambda>_. leftOver (h @ x)) u"] d
  have "iteration dec d t' (h @ x) rs' (map_option (\<lambda>_. leftOver (h @ x)) u)
      = Again (h1 @ x) (rs' @ [?x']) (Some (leftOver (h1 @ x)))"
    by simp
  from reached.nextPass[OF rs'(1) this] p(5)
  have "reached dec d t' (b @ x) rs0' (h1 @ x) (rs' @ [?x'])
          (map_option (\<lambda>_. leftOver (h1 @ x)) u1)"
    by simp
  moreover have "map untimed (rs' @ [?x']) = map untimed rs1"
    using rs'(2) p(4) by (simp add: untimed_def)
  ultimately show ?case by blast
qed



text \<open>A record seen through \<open>observed\<close>.\<close>

lemma observed_upd [simp]:
  "observed (st\<lparr>processed := n\<rparr>) = observed st"
  "observed (st\<lparr>skipped := n\<rparr>) = observed st"
  by (simp_all add: observed_def)

lemma finished_bufs:
  assumes "case d of RX \<Rightarrow> snd bufs = snd bufs' | TX \<Rightarrow> fst bufs = fst bufs'"
  shows "finished d b bufs r = finished d b bufs' r"
  using assms
  by (cases d) (simp_all add: finished_def split: option.splits sum.splits prod.splits)

lemma onData_finished:
  assumes tok: "includes_str tok ''IN'' \<or> includes_str tok ''OUT''"
    and d: "d = directionOf tok"
  shows "outcome_observed (onData dec st (traceRow ''0'' t tok c)) =
     (if removeSpaces c = [] then Some (Inr (observed st))
      else (case accumulate (currentHexString d st) (removeSpaces c) of
              None \<Rightarrow> Some (Inr (observed st))
            | Some b \<Rightarrow>
                finished d b (rxCurrentHexString st, txCurrentHexString st)
                  (processBuffer dec b d t (results st))))"
proof -
  from d have d': "d = (if includes_str tok ''IN'' then RX else TX)"
    by (simp add: directionOf_def)
  show ?thesis
  proof (cases "removeSpaces c = []")
    case True
    then show ?thesis
      by (simp add: onData_def receive_traceRow[OF tok d'] outcome_observed_def)
  next
    case False
    show ?thesis
    proof (cases "accumulate (currentHexString d st) (removeSpaces c)")
      case None
      with False show ?thesis
        by (simp add: onData_def receive_traceRow[OF tok d'] outcome_observed_def)
    next
      case (Some b)
      from accumulate_nonempty[OF Some False] have b: "b \<noteq> []" .
      have r: "results (setCurrentHexString d b st) = results st"
        by (cases d) (simp_all add: setCurrentHexString_def)
      have o: "\<And>rs' x. observed (setCurrentHexString d x
                  (setCurrentHexString d b st\<lparr>results := rs'\<rparr>))
          = (map untimed rs',
             (case d of RX \<Rightarrow> (x, txCurrentHexString st)
                      | TX \<Rightarrow> (rxCurrentHexString st, x)))"
        by (cases d) (simp_all add: observed_def setCurrentHexString_def)
      from False Some b show ?thesis
        by (simp add: onData_def receive_traceRow[OF tok d'] outcome_observed_def r o
              finished_def split: option.splits sum.splits prod.splits direction.splits)
    qed
  qed
qed

lemma onData_untimed_cong:
  assumes tok: "includes_str tok ''IN'' \<or> includes_str tok ''OUT''"
    and o: "observed s1 = observed s2"
  shows "outcome_observed (onData dec s1 (traceRow ''0'' t tok c))
       = outcome_observed (onData dec s2 (traceRow ''0'' t' tok c))"
proof -
  let ?d = "directionOf tok"
  from o have r: "map untimed (results s1) = map untimed (results s2)"
    and rx: "rxCurrentHexString s1 = rxCurrentHexString s2"
    and tx: "txCurrentHexString s1 = txCurrentHexString s2"
    by (simp_all add: observed_def)
  from rx tx have c: "currentHexString ?d s1 = currentHexString ?d s2"
    by (cases ?d) (simp_all add: currentHexString_def)
  have f: "\<And>b. finished ?d b (rxCurrentHexString s2, txCurrentHexString s2)
                  (processBuffer dec b ?d t (results s1))
      = finished ?d b (rxCurrentHexString s2, txCurrentHexString s2)
                  (processBuffer dec b ?d t' (results s2))"
    unfolding processBuffer_def by (rule finished_similar[OF r refl])
  show ?thesis
    unfolding onData_finished[OF tok refl] c rx tx f o ..
qed

lemma run_Cons_observed:
  "outcome_observed (run dec st (row # rows)) =
     (case onData dec st row of
        None \<Rightarrow> None
      | Some (Inl e) \<Rightarrow> Some (Inl e)
      | Some (Inr st') \<Rightarrow> outcome_observed (run dec st' rows))"
  by (simp add: outcome_observed_def split: option.splits sum.splits)

lemma run_single_observed:
  "outcome_observed (run dec st [row]) = outcome_observed (onData dec st row)"
  by (simp add: outcome_observed_def split: option.splits sum.splits)

text \<open>The state after a record that was handed to the extractor.\<close>

lemma onData_returned:
  assumes tok: "includes_str tok ''IN'' \<or> includes_str tok ''OUT''"
    and d: "d = directionOf tok"
    and h: "removeSpaces c \<noteq> []"
    and acc: "accumulate (currentHexString d st) (removeSpaces c) = Some b"
    and o: "onData dec st (traceRow ''0'' t tok c) = Some (Inr st1)"
  shows "\<exists>u1. processBuffer dec b d t (results st) = Some (Inr (results st1, u1))
     \<and> currentHexString d st1 = carryOver b u1
     \<and> observed st1 = (map untimed (results st1),
          (case d of RX \<Rightarrow> (carryOver b u1, txCurrentHexString st)
                   | TX \<Rightarrow> (rxCurrentHexString st, carryOver b u1)))"
proof -
  from d have d': "d = (if includes_str tok ''IN'' then RX else TX)"
    by (simp add: directionOf_def)
  from accumulate_nonempty[OF acc h] have b: "b \<noteq> []" .
  from h acc b have r: "receive st (traceRow ''0'' t tok c)
      = Extract (setCurrentHexString d b st) d t"
    by (simp add: receive_traceRow[OF tok d'])
  have res: "results (setCurrentHexString d b st) = results st"
    by (cases d) (simp_all add: setCurrentHexString_def)
  from onData_Extract[OF r o] obtain rs' u where
    p: "processBuffer dec b d t (results st) = Some (Inr (rs', u))"
    and st1: "st1 = (setCurrentHexString d (carryOver b u)
                      ((setCurrentHexString d b st)\<lparr>results := rs'\<rparr>))
                    \<lparr>processed := processed (setCurrentHexString d b st) + 1\<rparr>"
    by (auto simp: res)
  have "results st1 = rs'"
    unfolding st1 by (cases d) (simp_all add: setCurrentHexString_def)
  moreover have "currentHexString d st1 = carryOver b u"
    unfolding st1 by simp
  moreover have "observed st1 = (map untimed rs',
          (case d of RX \<Rightarrow> (carryOver b u, txCurrentHexString st)
                   | TX \<Rightarrow> (rxCurrentHexString st, carryOver b u)))"
    unfolding st1 by (cases d) (simp_all add: observed_def setCurrentHexString_def)
  ultimately show ?thesis using p by blast
qed

text \<open>
  A call that returned after valid packets only and left the whole remainder in the buffer
  stopped at that remainder, because the decoder threw on it.
\<close>

lemma waited_pass:
  assumes call: "processBuffer dec b d t rs = Some (Inr (rs1, u1))"
    and valid: "\<forall>p \<in> set (drop (length rs) rs1). isValid (ParsedData.packet p)"
    and whole: "carryOver b u1 = drop (consumed (drop (length rs) rs1)) b"
  shows "reached dec d t b rs (carryOver b u1) rs1 u1 \<and> dec (carryOver b u1) = None
     \<and> (u1 \<noteq> None \<longrightarrow> leftOver (carryOver b u1) = carryOver b u1)"
proof -
  from returned_at_failure[OF call valid] obtain r where
    r: "reached dec d t b rs r rs1 u1" "dec r = None"
    by blast
  from reached_consumed[OF r(1)] obtain new where
    new: "rs1 = rs @ new" "r = drop (consumed new) b"
      "new = [] \<longrightarrow> u1 = None" "new \<noteq> [] \<longrightarrow> u1 = Some (leftOver r)"
    by blast
  from new(1) have "drop (length rs) rs1 = new" by simp
  with whole new(2) have c: "carryOver b u1 = r" by simp
  have "u1 \<noteq> None \<longrightarrow> leftOver r = r"
  proof
    assume "u1 \<noteq> None"
    with new(3,4) have "u1 = Some (leftOver r)" by blast
    then have "carryOver b u1 = leftOver r" by (simp add: carryOver_def)
    with c show "leftOver r = r" by simp
  qed
  with r c show ?thesis by simp
qed

lemma appendsWhole_append:
  assumes "appendsWhole current h" "h \<noteq> []"
  shows "appendsWhole current (h @ y)"
  using assms accumulate_append[of current h "current @ h" y]
  by (simp add: appendsWhole_def)

lemma appendsWhole_starts:
  assumes a: "appendsWhole r h" and h: "h \<noteq> []" and l: "leftOver r = r"
  shows "leftOver (r @ h) = r @ h"
proof (cases "r = []")
  case True
  from a h True obtain i where i: "indexOf h ''55'' = Some i" "drop i h = h"
    by (auto simp: appendsWhole_def accumulate_def split: option.splits)
  from indexOf_Some[OF i(1)] i(2) have "startsWith h ''55''" by simp
  with True show ?thesis by (simp add: leftOver_def)
next
  case False
  with l have "startsWith r ''55''" by (auto simp: leftOver_def split: if_splits)
  from startsWith_append[OF this] show ?thesis by (simp add: leftOver_def)
qed

text \<open>
  The chunk after such a call, fed to the buffer it left, or both chunks at once to the
  buffer before.
\<close>

lemma merge_nonempty:
  assumes fl: "frameLocal dec"
    and call: "processBuffer dec b d t1 rs = Some (Inr (rs1, u1))"
    and valid: "\<forall>p \<in> set (drop (length rs) rs1). isValid (ParsedData.packet p)"
    and whole: "carryOver b u1 = drop (consumed (drop (length rs) rs1)) b"
    and app: "appendsWhole (carryOver b u1) h"
    and h: "h \<noteq> []"
  shows "finished d (carryOver b u1 @ h) bufs (processBuffer dec (carryOver b u1 @ h) d t rs1)
       = finished d (b @ h) bufs (processBuffer dec (b @ h) d t' rs)"
proof -
  let ?r = "carryOver b u1"
  let ?u = "map_option (\<lambda>_. leftOver (?r @ h)) u1"
  from waited_pass[OF call valid whole]
  have re: "reached dec d t1 b rs ?r rs1 u1"
    and l: "u1 \<noteq> None \<longrightarrow> leftOver ?r = ?r"
    by simp_all
  from reached_extend[OF fl refl re, of t' h] obtain rs' where
    rs': "reached dec d t' (b @ h) rs (?r @ h) rs' ?u" "map untimed rs' = map untimed rs1"
    by blast
  have c: "carryOver (?r @ h) None = carryOver (b @ h) ?u"
  proof (cases u1)
    case None
    then show ?thesis by (simp add: carryOver_def)
  next
    case (Some x)
    with l have "leftOver ?r = ?r" by simp
    from appendsWhole_starts[OF app h this] Some show ?thesis
      by (simp add: carryOver_def)
  qed
  have "finished d (?r @ h) bufs (processLoop dec d t (?r @ h) rs1 None)
      = finished d (b @ h) bufs (processLoop dec d t' (?r @ h) rs' ?u)"
    by (rule finished_similar[OF rs'(2)[symmetric] c])
  with processLoop_reached[OF rs'(1)] show ?thesis
    by (simp add: processBuffer_def)
qed

lemma merge_empty:
  assumes call: "processBuffer dec b d t1 rs = Some (Inr (rs1, u1))"
  shows "Some (Inr (map untimed rs1,
           (case d of RX \<Rightarrow> (carryOver b u1, tx) | TX \<Rightarrow> (rx, carryOver b u1))))
       = finished d b (rx, tx) (processBuffer dec b d t' rs)"
proof -
  have "finished d b (rx, tx) (processLoop dec d t1 b rs None)
      = finished d b (rx, tx) (processLoop dec d t' b rs None)"
    by (rule finished_similar[OF refl refl])
  with call show ?thesis by (cases d) (simp_all add: processBuffer_def finished_def)
qed

lemma waits_merge:
  assumes fl: "frameLocal dec"
    and tok: "includes_str tok ''IN'' \<or> includes_str tok ''OUT''"
  shows "waits dec tok st chunks c \<Longrightarrow>
     outcome_observed
       (run dec st (map (\<lambda>tc. traceRow ''0'' (fst tc) tok (snd tc)) chunks
                    @ [traceRow ''0'' t tok c]))
     = outcome_observed (run dec st [traceRow ''0'' t' tok (concat (map snd chunks) @ c)])"
proof (induction chunks arbitrary: st)
  case Nil
  show ?case
    using onData_untimed_cong[OF tok refl, of dec st t c t']
    by (simp add: run_single_observed del: run.simps)
next
  case (Cons tc rest)
  obtain t1 c1 where tc: "tc = (t1, c1)" by (cases tc)
  let ?d = "directionOf tok"
  let ?X = "concat (map snd rest) @ c"
  let ?nxt = "case rest of [] \<Rightarrow> c | tc # _ \<Rightarrow> snd tc"
  from Cons.prems tc have h1: "removeSpaces c1 \<noteq> []" by simp
  from Cons.prems tc h1 obtain b where
    acc: "accumulate (currentHexString ?d st) (removeSpaces c1) = Some b"
    by (cases "accumulate (currentHexString ?d st) (removeSpaces c1)") simp_all
  from Cons.prems tc h1 acc obtain st1 where
    o: "onData dec st (traceRow ''0'' t1 tok c1) = Some (Inr st1)"
    by (auto split: option.splits sum.splits)
  from Cons.prems tc h1 acc o have
    "(\<forall>p \<in> set (drop (length (results st)) (results st1)). isValid (ParsedData.packet p))
     \<and> currentHexString ?d st1
                  = drop (consumed (drop (length (results st)) (results st1))) b
     \<and> appendsWhole (currentHexString ?d st1) (removeSpaces ?nxt)
     \<and> waits dec tok st1 rest c"
    by (simp cong: conj_cong)
  then have
    valid: "\<forall>p \<in> set (drop (length (results st)) (results st1)). isValid (ParsedData.packet p)"
    and whole: "currentHexString ?d st1
                  = drop (consumed (drop (length (results st)) (results st1))) b"
    and app: "appendsWhole (currentHexString ?d st1) (removeSpaces ?nxt)"
    and w: "waits dec tok st1 rest c"
    by blast+
  from onData_returned[OF tok refl h1 acc o] obtain u1 where
    call: "processBuffer dec b ?d t1 (results st) = Some (Inr (results st1, u1))"
    and cur: "currentHexString ?d st1 = carryOver b u1"
    and obs: "observed st1 = (map untimed (results st1),
          (case ?d of RX \<Rightarrow> (carryOver b u1, txCurrentHexString st)
                   | TX \<Rightarrow> (rxCurrentHexString st, carryOver b u1)))"
    by blast
  have appX: "appendsWhole (carryOver b u1) (removeSpaces ?X)"
  proof (cases rest)
    case Nil
    with app cur show ?thesis by simp
  next
    case (Cons tc2 rest')
    with w have "removeSpaces (snd tc2) \<noteq> []" by (cases tc2) simp
    from appendsWhole_append[OF _ this] app cur Cons show ?thesis
      by (simp add: removeSpaces_append)
  qed
  have lhs: "outcome_observed
       (run dec st (map (\<lambda>tc. traceRow ''0'' (fst tc) tok (snd tc)) (tc # rest)
                    @ [traceRow ''0'' t tok c]))
     = outcome_observed (onData dec st1 (traceRow ''0'' t' tok ?X))"
  proof -
    have "outcome_observed
       (run dec st (map (\<lambda>tc. traceRow ''0'' (fst tc) tok (snd tc)) (tc # rest)
                    @ [traceRow ''0'' t tok c]))
       = outcome_observed
       (run dec st1 (map (\<lambda>tc. traceRow ''0'' (fst tc) tok (snd tc)) rest
                    @ [traceRow ''0'' t tok c]))"
      using o by (simp add: tc run_Cons_observed del: run.simps)
    also have "\<dots> = outcome_observed (run dec st1 [traceRow ''0'' t' tok ?X])"
      by (rule Cons.IH[OF w])
    also have "\<dots> = outcome_observed (onData dec st1 (traceRow ''0'' t' tok ?X))"
      by (rule run_single_observed)
    finally show ?thesis .
  qed
  have rhs: "outcome_observed (run dec st [traceRow ''0'' t' tok (concat (map snd (tc # rest)) @ c)])
     = finished ?d (b @ removeSpaces ?X) (rxCurrentHexString st, txCurrentHexString st)
         (processBuffer dec (b @ removeSpaces ?X) ?d t' (results st))"
    using h1 accumulate_append[OF acc, of "removeSpaces ?X"]
    by (simp add: tc run_single_observed onData_finished[OF tok refl] removeSpaces_append
          del: run.simps)
  have bufs: "case ?d of RX \<Rightarrow> snd (rxCurrentHexString st1, txCurrentHexString st1)
                               = snd (rxCurrentHexString st, txCurrentHexString st)
                       | TX \<Rightarrow> fst (rxCurrentHexString st1, txCurrentHexString st1)
                               = fst (rxCurrentHexString st, txCurrentHexString st)"
    using obs by (cases ?d) (simp_all add: observed_def)
  show ?case
  proof (cases "removeSpaces ?X = []")
    case True
    have "outcome_observed (onData dec st1 (traceRow ''0'' t' tok ?X))
        = Some (Inr (observed st1))"
      using True by (simp add: onData_finished[OF tok refl])
    also have "\<dots> = finished ?d b (rxCurrentHexString st, txCurrentHexString st)
         (processBuffer dec b ?d t' (results st))"
      using merge_empty[OF call, of "txCurrentHexString st" "rxCurrentHexString st" t'] obs
      by simp
    finally show ?thesis unfolding lhs rhs using True by simp
  next
    case False
    from appX False have a: "accumulate (carryOver b u1) (removeSpaces ?X)
        = Some (carryOver b u1 @ removeSpaces ?X)"
      by (simp add: appendsWhole_def)
    have "outcome_observed (onData dec st1 (traceRow ''0'' t' tok ?X))
        = finished ?d (carryOver b u1 @ removeSpaces ?X)
            (rxCurrentHexString st1, txCurrentHexString st1)
            (processBuffer dec (carryOver b u1 @ removeSpaces ?X) ?d t' (results st1))"
      using False a cur by (simp add: onData_finished[OF tok refl])
    also have "\<dots> = finished ?d (carryOver b u1 @ removeSpaces ?X)
            (rxCurrentHexString st, txCurrentHexString st)
            (processBuffer dec (carryOver b u1 @ removeSpaces ?X) ?d t' (results st1))"
      by (rule finished_bufs[OF bufs])
    also have "\<dots> = finished ?d (b @ removeSpaces ?X)
            (rxCurrentHexString st, txCurrentHexString st)
            (processBuffer dec (b @ removeSpaces ?X) ?d t' (results st))"
      by (rule merge_nonempty[OF fl call valid whole[unfolded cur] appX False])
    finally show ?thesis unfolding lhs rhs .
  qed
qed



text \<open>The sample decoder is frame-local: it reads the length from the header.\<close>

lemma sampleDecoder_Some:
  assumes "sampleDecoder s = Some p"
  shows "4 \<le> length s \<and> startsWith s ''55''
     \<and> (\<exists>h l. hexValue (s ! 2) = Some h \<and> hexValue (s ! 3) = Some l)
     \<and> isValid p = (length s = 2 * length_pkt p)
     \<and> toShortString p = take (2 * length_pkt p) s"
  using assms
  by (auto simp: sampleDecoder_def split: if_splits option.splits)

lemma sampleDecoder_header:
  assumes s: "sampleDecoder s = Some p"
    and t: "take 4 s' = take 4 s"
    and l: "4 \<le> length s'"
  shows "sampleDecoder s' = Some (p\<lparr>isValid := (length s' = 2 * length_pkt p),
                                   toShortString := take (2 * length_pkt p) s'\<rparr>)"
proof -
  from s have ls: "4 \<le> length s" and st: "startsWith s ''55''"
    by (auto simp: sampleDecoder_def split: if_splits)
  have n2: "s' ! 2 = s ! 2"
    using nth_take[of 2 4 s'] nth_take[of 2 4 s] t by simp
  have n3: "s' ! 3 = s ! 3"
    using nth_take[of 3 4 s'] nth_take[of 3 4 s] t by simp
  have "take 2 s' = take 2 (take 4 s')" by simp
  also have "\<dots> = take 2 (take 4 s)" by (simp only: t)
  also have "\<dots> = take 2 s" by simp
  finally have "take (length ''55'') s' = take (length ''55'') s"
    by (simp add: numeral_2_eq_2)
  with st have st': "startsWith s' ''55''" unfolding startsWith_def by (rule trans[rotated])
  from s ls st l st' n2 n3 show ?thesis
    by (auto simp: sampleDecoder_def split: option.splits)
qed

lemma frameLocal_sampleDecoder: "frameLocal sampleDecoder"
  unfolding frameLocal_def
proof (intro allI impI, elim conjE)
  fix h p
  assume a: "acceptedAt sampleDecoder h = Some p" and v: "isValid p"
  from a obtain p0 where p0: "sampleDecoder h = Some p0"
    and acc: "accepted sampleDecoder h p0 = Some p"
    by (auto simp: acceptedAt_def split: option.splits)
  from sampleDecoder_Some[OF p0] have lh: "4 \<le> length h"
    and v0: "isValid p0 = (length h = 2 * length_pkt p0)"
    by simp_all
  have ext0: "\<And>x. sampleDecoder (h @ x)
      = Some (p0\<lparr>isValid := (length (h @ x) = 2 * length_pkt p0),
                  toShortString := take (2 * length_pkt p0) (h @ x)\<rparr>)"
    using lh by (intro sampleDecoder_header[OF p0]) simp_all
  show "length_pkt p * 2 \<le> length h \<and> (\<forall>x. acceptedAt sampleDecoder (h @ x) = Some p)"
  proof (cases "isValid p0")
    case True
    with acc have pp: "p = p0" by (simp add: accepted_def)
    from True v0 have len: "length h = 2 * length_pkt p0" by simp
    have "\<And>x. acceptedAt sampleDecoder (h @ x) = Some p"
    proof -
      fix x
      show "acceptedAt sampleDecoder (h @ x) = Some p"
      proof (cases "x = []")
        case True
        with a show ?thesis by simp
      next
        case False
        with len lh p0 show ?thesis
          by (simp add: acceptedAt_def ext0 accepted_def pp)
      qed
    qed
    with len pp show ?thesis by simp
  next
    case False
    with acc v have g: "length_pkt p0 < length h * 2"
      and re: "sampleDecoder (take (length_pkt p0 * 2) h) = Some p"
      by (auto simp: accepted_def split: if_splits)
    from sampleDecoder_Some[OF re] have l4: "4 \<le> length (take (length_pkt p0 * 2) h)"
      by simp
    then have n4: "4 \<le> length_pkt p0 * 2" by simp
    then have "take 4 (take (length_pkt p0 * 2) h) = take 4 h"
      by (simp add: min_def)
    from sampleDecoder_header[OF p0 this l4] re
    have pdef: "p = p0\<lparr>isValid := (length (take (length_pkt p0 * 2) h) = 2 * length_pkt p0),
                  toShortString := take (2 * length_pkt p0) (take (length_pkt p0 * 2) h)\<rparr>"
      by simp
    with v have "length (take (length_pkt p0 * 2) h) = 2 * length_pkt p0" by simp
    then have le: "length_pkt p0 * 2 \<le> length h" by simp
    from False v0 le have lt: "length_pkt p0 * 2 < length h" by simp
    from pdef have lp: "length_pkt p = length_pkt p0" by simp
    have "\<And>x. acceptedAt sampleDecoder (h @ x) = Some p"
      using lt g re by (simp add: acceptedAt_def ext0 accepted_def)
    with le lp show ?thesis by simp
  qed
qed

section \<open>processBuffer and parseCSV: the claims\<close>

text \<open>
  C5. At every pass of a call in which the decoder succeeds, the packet the extractor
  accepts is the one the specification names: decoded again from the first \<open>length\<close>
  bytes of the buffer when the decoded packet is invalid and its \<open>length\<close> is smaller
  than the number of bytes in the buffer, the decoded packet as it is in every other
  case. The call then throws if the second decoding throws, returns with the accepted
  packet pushed last if that packet is invalid, and goes on to the next pass with the
  accepted packet pushed if it is valid.
\<close>

theorem redecode_every_pass:
  assumes "reached fromHexString dir ts cur rs0 hexString rs updated"
    and "fromHexString hexString = Some decoded"
  shows "accepted fromHexString hexString decoded = specAccepted fromHexString hexString decoded
    \<and> (specAccepted fromHexString hexString decoded = None \<longrightarrow>
          processBuffer fromHexString cur dir ts rs0 = Some (Inl DecodeError))
    \<and> (\<forall>pkt. specAccepted fromHexString hexString decoded = Some pkt \<and> \<not> isValid pkt \<longrightarrow>
          processBuffer fromHexString cur dir ts rs0
            = Some (Inr (rs @ [\<lparr>ParsedData.timestamp = ts, ParsedData.direction = dir,
                                  ParsedData.packet = pkt\<rparr>],
                         Some (leftOver (drop (length_pkt pkt * 2) hexString)))))
    \<and> (\<forall>pkt. specAccepted fromHexString hexString decoded = Some pkt \<and> isValid pkt \<longrightarrow>
          reached fromHexString dir ts cur rs0
            (drop (length_pkt pkt * 2) hexString)
            (rs @ [\<lparr>ParsedData.timestamp = ts, ParsedData.direction = dir,
                     ParsedData.packet = pkt\<rparr>])
            (Some (leftOver (drop (length_pkt pkt * 2) hexString)))
          \<and> processBuffer fromHexString cur dir ts rs0
            = processLoop fromHexString dir ts
                (drop (length_pkt pkt * 2) hexString)
                (rs @ [\<lparr>ParsedData.timestamp = ts, ParsedData.direction = dir,
                         ParsedData.packet = pkt\<rparr>])
                (Some (leftOver (drop (length_pkt pkt * 2) hexString)))
          \<and> (\<forall>rs' u. processBuffer fromHexString cur dir ts rs0 = Some (Inr (rs', u)) \<longrightarrow>
                prefix (rs @ [\<lparr>ParsedData.timestamp = ts, ParsedData.direction = dir,
                                ParsedData.packet = pkt\<rparr>]) rs'))"
proof -
  have eq: "accepted fromHexString hexString decoded
      = specAccepted fromHexString hexString decoded"
    unfolding specAccepted_def
    using assms(2) by (rule accepted_take_all[of fromHexString hexString decoded])
  have here: "processBuffer fromHexString cur dir ts rs0
      = processLoop fromHexString dir ts hexString rs updated"
    unfolding processBuffer_def by (rule processLoop_reached[OF assms(1)])
  have none: "processBuffer fromHexString cur dir ts rs0 = Some (Inl DecodeError)"
    if "specAccepted fromHexString hexString decoded = None"
  proof -
    from that eq assms(2) have "iteration fromHexString dir ts hexString rs updated
        = Raise DecodeError"
      by (simp add: iteration_def)
    then show ?thesis unfolding here by (rule processLoop_Raise)
  qed
  have invalid: "processBuffer fromHexString cur dir ts rs0
            = Some (Inr (rs @ [\<lparr>ParsedData.timestamp = ts, ParsedData.direction = dir,
                                  ParsedData.packet = pkt\<rparr>],
                         Some (leftOver (drop (length_pkt pkt * 2) hexString))))"
    if "specAccepted fromHexString hexString decoded = Some pkt" "\<not> isValid pkt" for pkt
  proof -
    from that eq assms(2) have "iteration fromHexString dir ts hexString rs updated
        = Return (rs @ [\<lparr>ParsedData.timestamp = ts, ParsedData.direction = dir,
                          ParsedData.packet = pkt\<rparr>],
                  Some (leftOver (drop (length_pkt pkt * 2) hexString)))"
      by (simp add: iteration_def Let_def)
    then show ?thesis unfolding here by (rule processLoop_Return)
  qed
  have valid: "reached fromHexString dir ts cur rs0
            (drop (length_pkt pkt * 2) hexString)
            (rs @ [\<lparr>ParsedData.timestamp = ts, ParsedData.direction = dir,
                     ParsedData.packet = pkt\<rparr>])
            (Some (leftOver (drop (length_pkt pkt * 2) hexString)))
          \<and> processBuffer fromHexString cur dir ts rs0
            = processLoop fromHexString dir ts
                (drop (length_pkt pkt * 2) hexString)
                (rs @ [\<lparr>ParsedData.timestamp = ts, ParsedData.direction = dir,
                         ParsedData.packet = pkt\<rparr>])
                (Some (leftOver (drop (length_pkt pkt * 2) hexString)))
          \<and> (\<forall>rs' u. processBuffer fromHexString cur dir ts rs0 = Some (Inr (rs', u)) \<longrightarrow>
                prefix (rs @ [\<lparr>ParsedData.timestamp = ts, ParsedData.direction = dir,
                                ParsedData.packet = pkt\<rparr>]) rs')"
    if "specAccepted fromHexString hexString decoded = Some pkt" "isValid pkt" for pkt
  proof -
    let ?h = "drop (length_pkt pkt * 2) hexString"
    let ?rs = "rs @ [\<lparr>ParsedData.timestamp = ts, ParsedData.direction = dir,
                       ParsedData.packet = pkt\<rparr>]"
    from that eq assms(2) have it: "iteration fromHexString dir ts hexString rs updated
        = Again ?h ?rs (Some (leftOver ?h))"
      by (simp add: iteration_def Let_def)
    from assms(1) it have r: "reached fromHexString dir ts cur rs0 ?h ?rs (Some (leftOver ?h))"
      by (rule nextPass)
    have p: "processBuffer fromHexString cur dir ts rs0
        = processLoop fromHexString dir ts ?h ?rs (Some (leftOver ?h))"
      unfolding here by (rule processLoop_Again[OF it])
    have "prefix ?rs rs'"
      if "processBuffer fromHexString cur dir ts rs0 = Some (Inr (rs', u))" for rs' u
      using that unfolding p by (rule processLoop_prefix)
    with r p show ?thesis by blast
  qed
  from eq none invalid valid show ?thesis by blast
qed

theorem redecode_every_pass_witness:
  "processBuffer sampleDecoder ''5504AAAA5506BBBBBBBB'' RX ''t'' []
     = Some (Inr ([\<lparr>ParsedData.timestamp = ''t'', ParsedData.direction = RX,
           ParsedData.packet = \<lparr>length_pkt = 4, commandType = 0, ackType = 0, sequenceID = 0,
             isValid = True, toShortString = ''5504AAAA''\<rparr>\<rparr>,
         \<lparr>ParsedData.timestamp = ''t'', ParsedData.direction = RX,
           ParsedData.packet = \<lparr>length_pkt = 6, commandType = 0, ackType = 0, sequenceID = 0,
             isValid = True, toShortString = ''5506BBBBBBBB''\<rparr>\<rparr>], Some []))
   \<and> processBuffer sampleDecoder ''5504AA'' TX ''t'' []
     = Some (Inr ([\<lparr>ParsedData.timestamp = ''t'', ParsedData.direction = TX,
           ParsedData.packet = \<lparr>length_pkt = 4, commandType = 0, ackType = 0, sequenceID = 0,
             isValid = False, toShortString = ''5504AA''\<rparr>\<rparr>], Some []))"
proof -
  let ?A = "\<lparr>length_pkt = 4, commandType = 0, ackType = 0, sequenceID = 0,
             isValid = True, toShortString = ''5504AAAA''\<rparr>"
  let ?B = "\<lparr>length_pkt = 6, commandType = 0, ackType = 0, sequenceID = 0,
             isValid = True, toShortString = ''5506BBBBBBBB''\<rparr>"
  let ?Ainv = "\<lparr>length_pkt = 4, commandType = 0, ackType = 0, sequenceID = 0,
             isValid = False, toShortString = ''5504AAAA''\<rparr>"
  let ?T = "\<lparr>length_pkt = 4, commandType = 0, ackType = 0, sequenceID = 0,
             isValid = False, toShortString = ''5504AA''\<rparr>"
  let ?cur = "''5504AAAA5506BBBBBBBB''"
  \<comment> \<open>first pass: an invalid packet of length 4 over 10 bytes, decoded again from 4 bytes\<close>
  have d1: "sampleDecoder ?cur = Some ?Ainv" by code_simp
  have dA: "sampleDecoder ''5504AAAA'' = Some ?A" by code_simp
  have s1: "specAccepted sampleDecoder ?cur ?Ainv = Some ?A"
    by (simp add: specAccepted_def dA)
  have v1: "isValid ?A" by simp
  have l1: "leftOver ''5506BBBBBBBB'' = ''5506BBBBBBBB''" by code_simp
  from redecode_every_pass[of sampleDecoder RX "''t''" ?cur "[]" ?cur "[]" None ?Ainv,
      OF firstPass d1] s1 v1
  have r2: "reached sampleDecoder RX ''t'' ?cur [] ''5506BBBBBBBB''
      [\<lparr>ParsedData.timestamp = ''t'', ParsedData.direction = RX, ParsedData.packet = ?A\<rparr>]
      (Some ''5506BBBBBBBB'')"
    by (simp add: l1)
  \<comment> \<open>second pass: a valid packet, accepted as it is\<close>
  have d2: "sampleDecoder ''5506BBBBBBBB'' = Some ?B" by code_simp
  have s2: "specAccepted sampleDecoder ''5506BBBBBBBB'' ?B = Some ?B"
    by (simp add: specAccepted_def)
  have v2: "isValid ?B" by simp
  have l2: "leftOver [] = []" by code_simp
  have f: "processLoop sampleDecoder RX ''t'' []
      [\<lparr>ParsedData.timestamp = ''t'', ParsedData.direction = RX, ParsedData.packet = ?A\<rparr>,
       \<lparr>ParsedData.timestamp = ''t'', ParsedData.direction = RX, ParsedData.packet = ?B\<rparr>]
      (Some [])
    = Some (Inr ([\<lparr>ParsedData.timestamp = ''t'', ParsedData.direction = RX,
                    ParsedData.packet = ?A\<rparr>,
                  \<lparr>ParsedData.timestamp = ''t'', ParsedData.direction = RX,
                    ParsedData.packet = ?B\<rparr>], Some []))"
    by code_simp
  from redecode_every_pass[OF r2 d2] s2 v2
  have a: "processBuffer sampleDecoder ?cur RX ''t'' []
    = Some (Inr ([\<lparr>ParsedData.timestamp = ''t'', ParsedData.direction = RX,
                    ParsedData.packet = ?A\<rparr>,
                  \<lparr>ParsedData.timestamp = ''t'', ParsedData.direction = RX,
                    ParsedData.packet = ?B\<rparr>], Some []))"
    using f by (simp add: l2)
  \<comment> \<open>a truncated frame: invalid, but no longer than the buffer, accepted as it is\<close>
  have d3: "sampleDecoder ''5504AA'' = Some ?T" by code_simp
  have s3: "specAccepted sampleDecoder ''5504AA'' ?T = Some ?T"
    by (simp add: specAccepted_def)
  have v3: "\<not> isValid ?T" by simp

  from redecode_every_pass[of sampleDecoder TX "''t''" "''5504AA''" "[]" "''5504AA''" "[]" None ?T,
      OF firstPass d3] s3 v3
  have b: "processBuffer sampleDecoder ''5504AA'' TX ''t'' []
     = Some (Inr ([\<lparr>ParsedData.timestamp = ''t'', ParsedData.direction = TX,
           ParsedData.packet = ?T\<rparr>], Some []))"
    by (simp add: l2)
  from a b show ?thesis by blast
qed

text \<open>
  C9, as stated: after an outright decode failure the carry-over buffer is the whole
  unconsumed remainder. It fails when a packet was decoded in the call and the remainder
  does not begin with \<open>55\<close>: the buffer \<open>5504AAAAFF\<close> yields the packet \<open>5504AAAA\<close>, the
  decoder then fails on the remainder \<open>FF\<close>, and the carry-over buffer is empty.
\<close>

theorem decode_failure_counterexample:
  "reached sampleDecoder RX ''t'' ''5504AAAAFF'' [] ''FF''
     [\<lparr>ParsedData.timestamp = ''t'', ParsedData.direction = RX,
       ParsedData.packet = \<lparr>length_pkt = 4, commandType = 0, ackType = 0, sequenceID = 0,
         isValid = True, toShortString = ''5504AAAA''\<rparr>\<rparr>]
     (Some '''')
   \<and> sampleDecoder ''FF'' = None
   \<and> processBuffer sampleDecoder ''5504AAAAFF'' RX ''t'' []
     = Some (Inr ([\<lparr>ParsedData.timestamp = ''t'', ParsedData.direction = RX,
           ParsedData.packet = \<lparr>length_pkt = 4, commandType = 0, ackType = 0, sequenceID = 0,
             isValid = True, toShortString = ''5504AAAA''\<rparr>\<rparr>], Some ''''))
   \<and> carryOver ''5504AAAAFF'' (Some '''') \<noteq> ''FF''"
proof -
  have i: "iteration sampleDecoder RX ''t'' ''5504AAAAFF'' [] None
     = Again ''FF''
        [\<lparr>ParsedData.timestamp = ''t'', ParsedData.direction = RX,
          ParsedData.packet = \<lparr>length_pkt = 4, commandType = 0, ackType = 0, sequenceID = 0,
            isValid = True, toShortString = ''5504AAAA''\<rparr>\<rparr>]
        (Some '''')"
    by code_simp
  have r: "reached sampleDecoder RX ''t'' ''5504AAAAFF'' [] ''FF''
     [\<lparr>ParsedData.timestamp = ''t'', ParsedData.direction = RX,
       ParsedData.packet = \<lparr>length_pkt = 4, commandType = 0, ackType = 0, sequenceID = 0,
         isValid = True, toShortString = ''5504AAAA''\<rparr>\<rparr>]
     (Some '''')"
    by (rule nextPass[OF firstPass i])
  have d: "sampleDecoder ''FF'' = None" by code_simp
  have p: "processBuffer sampleDecoder ''5504AAAAFF'' RX ''t'' []
     = Some (Inr ([\<lparr>ParsedData.timestamp = ''t'', ParsedData.direction = RX,
           ParsedData.packet = \<lparr>length_pkt = 4, commandType = 0, ackType = 0, sequenceID = 0,
             isValid = True, toShortString = ''5504AAAA''\<rparr>\<rparr>], Some ''''))"
    by code_simp
  have c: "carryOver ''5504AAAAFF'' (Some '''') \<noteq> ''FF''" by (simp add: carryOver_def)
  from r d p c show ?thesis by blast
qed

text \<open>
  C9, amended. When the decoder fails outright at the start of a pass, the call stops and
  returns exactly the packets decoded so far. If that is the first pass of the call the
  direction's buffer stays the whole buffer passed in; after at least one packet was
  decoded in the call the carry-over buffer is the unconsumed remainder when that begins
  with \<open>55\<close>, and is empty otherwise.
\<close>

theorem decode_failure_stops:
  assumes "reached fromHexString dir ts cur rs0 hexString rs updated"
    and "fromHexString hexString = None"
  shows "processBuffer fromHexString cur dir ts rs0
           = Some (Inr (rs, updated))
         \<and> (rs = rs0 \<longrightarrow> hexString = cur)
         \<and> carryOver cur updated
           = (if rs = rs0 then cur
              else if startsWith hexString ''55'' then hexString else '''')"
proof -
  from assms(2) have "iteration fromHexString dir ts hexString rs updated
      = Return (rs, updated)"
    by (simp add: iteration_def)
  then have "processLoop fromHexString dir ts hexString rs updated
      = Some (Inr (rs, updated))"
    by (rule processLoop_Return)
  with processLoop_reached[OF assms(1)]
  have a: "processBuffer fromHexString cur dir ts rs0
           = Some (Inr (rs, updated))"
    by (simp add: processBuffer_def)
  from reached_updated[OF assms(1)]
  have "(hexString = cur \<and> rs = rs0 \<and> updated = None)
   \<or> (updated = Some (leftOver hexString) \<and> length rs0 < length rs)"
    by blast
  then have b: "(rs = rs0 \<longrightarrow> hexString = cur)
         \<and> carryOver cur updated
           = (if rs = rs0 then cur
              else if startsWith hexString ''55'' then hexString else '''')"
    by (auto simp: carryOver_def leftOver_def)
  from a b show ?thesis by blast
qed

theorem decode_failure_stops_witness:
  "reached sampleDecoder RX ''t'' ''5504AAAA55'' [] ''55''
     [\<lparr>ParsedData.timestamp = ''t'', ParsedData.direction = RX,
       ParsedData.packet = \<lparr>length_pkt = 4, commandType = 0, ackType = 0, sequenceID = 0,
         isValid = True, toShortString = ''5504AAAA''\<rparr>\<rparr>]
     (Some ''55'')
   \<and> sampleDecoder ''55'' = None
   \<and> processBuffer sampleDecoder ''5504AAAA55'' RX ''t'' []
     = Some (Inr ([\<lparr>ParsedData.timestamp = ''t'', ParsedData.direction = RX,
           ParsedData.packet = \<lparr>length_pkt = 4, commandType = 0, ackType = 0, sequenceID = 0,
             isValid = True, toShortString = ''5504AAAA''\<rparr>\<rparr>], Some ''55''))
   \<and> carryOver ''5504AAAA55'' (Some ''55'') = ''55''"
proof -
  have i: "iteration sampleDecoder RX ''t'' ''5504AAAA55'' [] None
     = Again ''55''
        [\<lparr>ParsedData.timestamp = ''t'', ParsedData.direction = RX,
          ParsedData.packet = \<lparr>length_pkt = 4, commandType = 0, ackType = 0, sequenceID = 0,
            isValid = True, toShortString = ''5504AAAA''\<rparr>\<rparr>]
        (Some ''55'')"
    by code_simp
  have r: "reached sampleDecoder RX ''t'' ''5504AAAA55'' [] ''55''
     [\<lparr>ParsedData.timestamp = ''t'', ParsedData.direction = RX,
       ParsedData.packet = \<lparr>length_pkt = 4, commandType = 0, ackType = 0, sequenceID = 0,
         isValid = True, toShortString = ''5504AAAA''\<rparr>\<rparr>]
     (Some ''55'')"
    by (rule nextPass[OF firstPass i])
  have d: "sampleDecoder ''55'' = None" by code_simp
  have s: "startsWith ''55'' ''55''" by code_simp
  from decode_failure_stops[of sampleDecoder RX "''t''" "''5504AAAA55''" "[]" "''55''" _ _, OF r d]
    s r d show ?thesis by simp
qed

text \<open>
  C10. A record is skipped when its marker is not \<open>0\<close>, when its direction token has
  neither \<open>IN\<close> nor \<open>OUT\<close> in it, when its hex data is empty once white space is removed,
  or when the direction's buffer is empty and the hex data has no \<open>55\<close> in it. The state
  after such a record is the state before it with \<open>skipped\<close> one higher: both buffers, the
  results and \<open>processed\<close> are unchanged.
\<close>

theorem skipped_record_frame:
  assumes "\<not> (row \<noteq> [] \<and> row ! 0 = ''0'')
     \<or> (row \<noteq> [] \<and> row ! 0 = ''0'' \<and> 10 \<le> length row
          \<and> \<not> includes_str (row ! 9) ''IN'' \<and> \<not> includes_str (row ! 9) ''OUT'')
     \<or> (row \<noteq> [] \<and> row ! 0 = ''0'' \<and> 11 \<le> length row
          \<and> (includes_str (row ! 9) ''IN'' \<or> includes_str (row ! 9) ''OUT'')
          \<and> removeSpaces (row ! 10) = [])
     \<or> (row \<noteq> [] \<and> row ! 0 = ''0'' \<and> 11 \<le> length row
          \<and> (includes_str (row ! 9) ''IN'' \<or> includes_str (row ! 9) ''OUT'')
          \<and> currentHexString (if includes_str (row ! 9) ''IN'' then RX else TX) st = []
          \<and> indexOf (removeSpaces (row ! 10)) ''55'' = None)"
  shows "onData fromHexString st row = Some (Inr (st\<lparr>skipped := skipped st + 1\<rparr>))
         \<and> rxCurrentHexString (st\<lparr>skipped := skipped st + 1\<rparr>) = rxCurrentHexString st
         \<and> txCurrentHexString (st\<lparr>skipped := skipped st + 1\<rparr>) = txCurrentHexString st
         \<and> results (st\<lparr>skipped := skipped st + 1\<rparr>) = results st"
proof -
  from assms have "receive st row = Skip st"
    by (auto simp: receive_def Let_def accumulate_def)
  from onData_Skip[OF this] show ?thesis by simp
qed

theorem skipped_record_frame_witness:
  "onData sampleDecoder initialState (traceRow ''0'' ''t1'' ''IN txn'' ''AA BB'')
     = Some (Inr (initialState\<lparr>skipped := skipped initialState + 1\<rparr>))
   \<and> onData sampleDecoder initialState (traceRow ''1'' ''t1'' ''IN txn'' ''55 04 AA AA'')
     = Some (Inr (initialState\<lparr>skipped := skipped initialState + 1\<rparr>))"
proof -
  have h1: "traceRow ''0'' ''t1'' ''IN txn'' ''AA BB'' \<noteq> []
      \<and> traceRow ''0'' ''t1'' ''IN txn'' ''AA BB'' ! 0 = ''0''
      \<and> 11 \<le> length (traceRow ''0'' ''t1'' ''IN txn'' ''AA BB'')
      \<and> (includes_str (traceRow ''0'' ''t1'' ''IN txn'' ''AA BB'' ! 9) ''IN''
          \<or> includes_str (traceRow ''0'' ''t1'' ''IN txn'' ''AA BB'' ! 9) ''OUT'')
      \<and> currentHexString
           (if includes_str (traceRow ''0'' ''t1'' ''IN txn'' ''AA BB'' ! 9) ''IN''
            then RX else TX) initialState = []
      \<and> indexOf (removeSpaces (traceRow ''0'' ''t1'' ''IN txn'' ''AA BB'' ! 10)) ''55'' = None"
    by code_simp
  have h2: "\<not> (traceRow ''1'' ''t1'' ''IN txn'' ''55 04 AA AA'' \<noteq> []
      \<and> traceRow ''1'' ''t1'' ''IN txn'' ''55 04 AA AA'' ! 0 = ''0'')"
    by code_simp
  from skipped_record_frame[of "traceRow ''0'' ''t1'' ''IN txn'' ''AA BB''" initialState
      sampleDecoder] h1
  have a: "onData sampleDecoder initialState (traceRow ''0'' ''t1'' ''IN txn'' ''AA BB'')
     = Some (Inr (initialState\<lparr>skipped := skipped initialState + 1\<rparr>))"
    by blast
  from skipped_record_frame[of "traceRow ''1'' ''t1'' ''IN txn'' ''55 04 AA AA''" initialState
      sampleDecoder] h2
  have b: "onData sampleDecoder initialState (traceRow ''1'' ''t1'' ''IN txn'' ''55 04 AA AA'')
     = Some (Inr (initialState\<lparr>skipped := skipped initialState + 1\<rparr>))"
    by blast
  from a b show ?thesis by blast
qed



text \<open>
  C6, as stated: a buffer shrinks only by the bytes of the packets consumed. It fails on
  the chunk \<open>55 04 AA AA FF 01 02 03\<close>: one packet of 4 bytes is extracted, and the
  buffer is left empty although the four bytes \<open>FF 01 02 03\<close> were consumed by no packet.
\<close>

theorem buffer_shrink_counterexample:
  "onData sampleDecoder initialState
       (traceRow ''0'' ''t1'' ''IN txn'' ''55 04 AA AA FF 01 02 03'')
     = Some (Inr \<lparr>results = [\<lparr>ParsedData.timestamp = ''t1'', ParsedData.direction = RX,
           ParsedData.packet = \<lparr>length_pkt = 4, commandType = 0, ackType = 0, sequenceID = 0,
             isValid = True, toShortString = ''5504AAAA''\<rparr>\<rparr>],
         rxCurrentHexString = [], txCurrentHexString = [],
         processed = 1, skipped = 0\<rparr>)
   \<and> drop (consumed [\<lparr>ParsedData.timestamp = ''t1'', ParsedData.direction = RX,
           ParsedData.packet = \<lparr>length_pkt = 4, commandType = 0, ackType = 0, sequenceID = 0,
             isValid = True, toShortString = ''5504AAAA''\<rparr>\<rparr>])
         (removeSpaces ''55 04 AA AA FF 01 02 03'')
     = ''FF010203''"
  by code_simp

text \<open>
  C6, amended. Both buffers start empty, and after any run of records each buffer is
  empty or begins with \<open>55\<close>. One record keeps that and leaves each buffer as it was, or
  appends to it a suffix of the record's hex data with white space removed; if packets
  were extracted, their bytes are removed from the front and what remains is kept only
  when it begins with \<open>55\<close>, and is discarded whole otherwise.
\<close>

theorem direction_buffer_lifecycle:
  "rxCurrentHexString initialState = [] \<and> txCurrentHexString initialState = []
   \<and> (run fromHexString initialState rows = Some (Inr st) \<longrightarrow>
        (rxCurrentHexString st = [] \<or> startsWith (rxCurrentHexString st) ''55'')
        \<and> (txCurrentHexString st = [] \<or> startsWith (txCurrentHexString st) ''55''))
   \<and> (bufInv s \<and> onData fromHexString s row = Some (Inr s') \<longrightarrow>
        bufInv s'
        \<and> (\<forall>d. currentHexString d s' = currentHexString d s
               \<or> (\<exists>chunk new. suffix chunk (removeSpaces (row ! 10))
                     \<and> results s' = results s @ new
                     \<and> currentHexString d s'
                       = (if new = [] then currentHexString d s @ chunk
                          else leftOver (drop (consumed new) (currentHexString d s @ chunk))))))"
proof (intro conjI impI)
  show "rxCurrentHexString initialState = []" "txCurrentHexString initialState = []"
    by (simp_all add: initialState_def)
next
  assume "run fromHexString initialState rows = Some (Inr st)"
  from run_bufInv[OF bufInv_initialState this]
  show "rxCurrentHexString st = [] \<or> startsWith (rxCurrentHexString st) ''55''"
    "txCurrentHexString st = [] \<or> startsWith (txCurrentHexString st) ''55''"
    by (simp_all add: bufInv_def synchronized_def)
next
  assume a: "bufInv s \<and> onData fromHexString s row = Some (Inr s')"
  then show "bufInv s'" using onData_bufInv by blast
  from a show "\<forall>d. currentHexString d s' = currentHexString d s
               \<or> (\<exists>chunk new. suffix chunk (removeSpaces (row ! 10))
                     \<and> results s' = results s @ new
                     \<and> currentHexString d s'
                       = (if new = [] then currentHexString d s @ chunk
                          else leftOver (drop (consumed new) (currentHexString d s @ chunk))))"
    using onData_lifecycle[of s fromHexString row s'] by blast
qed

theorem direction_buffer_lifecycle_witness:
  "run sampleDecoder initialState [traceRow ''0'' ''t1'' ''IN txn'' ''55 04 AA AA 55'']
     = Some (Inr \<lparr>results = [\<lparr>ParsedData.timestamp = ''t1'', ParsedData.direction = RX,
           ParsedData.packet = \<lparr>length_pkt = 4, commandType = 0, ackType = 0, sequenceID = 0,
             isValid = True, toShortString = ''5504AAAA''\<rparr>\<rparr>],
         rxCurrentHexString = ''55'', txCurrentHexString = [],
         processed = 1, skipped = 0\<rparr>)
   \<and> startsWith ''55'' ''55''
   \<and> bufInv initialState
   \<and> onData sampleDecoder initialState (traceRow ''0'' ''t1'' ''IN txn'' ''55 04 AA AA 55'')
     = Some (Inr \<lparr>results = [\<lparr>ParsedData.timestamp = ''t1'', ParsedData.direction = RX,
           ParsedData.packet = \<lparr>length_pkt = 4, commandType = 0, ackType = 0, sequenceID = 0,
             isValid = True, toShortString = ''5504AAAA''\<rparr>\<rparr>],
         rxCurrentHexString = ''55'', txCurrentHexString = [],
         processed = 1, skipped = 0\<rparr>)
   \<and> bufInv \<lparr>results = [\<lparr>ParsedData.timestamp = ''t1'', ParsedData.direction = RX,
           ParsedData.packet = \<lparr>length_pkt = 4, commandType = 0, ackType = 0, sequenceID = 0,
             isValid = True, toShortString = ''5504AAAA''\<rparr>\<rparr>],
         rxCurrentHexString = ''55'', txCurrentHexString = [],
         processed = 1, skipped = 0\<rparr>
   \<and> (\<exists>chunk new. suffix chunk (removeSpaces ''55 04 AA AA 55'')
         \<and> [\<lparr>ParsedData.timestamp = ''t1'', ParsedData.direction = RX,
              ParsedData.packet = \<lparr>length_pkt = 4, commandType = 0, ackType = 0,
                sequenceID = 0, isValid = True, toShortString = ''5504AAAA''\<rparr>\<rparr>] = new
         \<and> ''55'' = (if new = [] then chunk else leftOver (drop (consumed new) chunk)))"
proof -
  let ?A = "\<lparr>ParsedData.timestamp = ''t1'', ParsedData.direction = RX,
           ParsedData.packet = \<lparr>length_pkt = 4, commandType = 0, ackType = 0, sequenceID = 0,
             isValid = True, toShortString = ''5504AAAA''\<rparr>\<rparr>"
  let ?st = "\<lparr>results = [?A], rxCurrentHexString = ''55'', txCurrentHexString = [],
         processed = 1, skipped = 0\<rparr>"
  let ?row = "traceRow ''0'' ''t1'' ''IN txn'' ''55 04 AA AA 55''"
  have r: "run sampleDecoder initialState [?row] = Some (Inr ?st)" by code_simp
  have o: "onData sampleDecoder initialState ?row = Some (Inr ?st)" by code_simp
  have i: "bufInv initialState" by code_simp
  have c: "currentHexString RX ?st = ''55''" "currentHexString RX initialState = []"
    "results ?st = [?A]" "results initialState = []"
    "?row ! 10 = ''55 04 AA AA 55''"
    by code_simp+
  note t = direction_buffer_lifecycle[of sampleDecoder "[?row]" ?st initialState ?row ?st]
  from t r have "rxCurrentHexString ?st = [] \<or> startsWith (rxCurrentHexString ?st) ''55''"
    by blast
  then have s: "startsWith ''55'' ''55''" by simp
  from t i o have b: "bufInv ?st" by blast
  from t i o have "currentHexString RX ?st = currentHexString RX initialState
       \<or> (\<exists>chunk new. suffix chunk (removeSpaces (?row ! 10))
             \<and> results ?st = results initialState @ new
             \<and> currentHexString RX ?st
               = (if new = [] then currentHexString RX initialState @ chunk
                  else leftOver (drop (consumed new) (currentHexString RX initialState @ chunk))))"
    by blast
  then have e: "\<exists>chunk new. suffix chunk (removeSpaces ''55 04 AA AA 55'')
         \<and> [?A] = new
         \<and> ''55'' = (if new = [] then chunk else leftOver (drop (consumed new) chunk))"
    unfolding c by simp
  from r s i o b e show ?thesis by blast
qed






text \<open>
  C8, as stated: one chunk or the same bytes split over several chunks give the same
  decoded packets. It fails on the frame \<open>55 04 AA AA\<close> split after its third byte: the
  decoder succeeds on \<open>5504AA\<close> with an invalid packet, which is pushed, the buffer is
  emptied, and the last byte arrives for an empty buffer without a \<open>55\<close> and is skipped.
\<close>

theorem reassembly_counterexample:
  "removeSpaces ''55 04 AA'' @ removeSpaces ''AA'' = removeSpaces ''55 04 AA AA''
   \<and> parseCSV sampleDecoder [traceRow ''0'' ''t1'' ''IN txn'' ''55 04 AA AA'']
     = Some (Inr [\<lparr>ParsedData.timestamp = ''t1'', ParsedData.direction = RX,
          ParsedData.packet = \<lparr>length_pkt = 4, commandType = 0, ackType = 0, sequenceID = 0,
            isValid = True, toShortString = ''5504AAAA''\<rparr>\<rparr>])
   \<and> parseCSV sampleDecoder
       [traceRow ''0'' ''t1'' ''IN txn'' ''55 04 AA'', traceRow ''0'' ''t2'' ''IN txn'' ''AA'']
     = Some (Inr [\<lparr>ParsedData.timestamp = ''t1'', ParsedData.direction = RX,
          ParsedData.packet = \<lparr>length_pkt = 4, commandType = 0, ackType = 0, sequenceID = 0,
            isValid = False, toShortString = ''5504AA''\<rparr>\<rparr>])"
  by code_simp

text \<open>
  C8, amended. Chunks of one direction are fed one by one, or their concatenation is fed
  as one chunk. Both ways end alike - the same error, or the same decoded packets with
  their directions, in the same order, and the same two buffers; timestamps apart, a
  packet being stamped with the chunk that completed it - provided that the decoder is
  frame-local and that the extractor never loses framing at a chunk boundary: each chunk
  but the last is not empty once white space is removed and is appended to the buffer,
  the call it triggers returns after pushing valid packets only (any number of them) and
  leaves the whole unconsumed remainder in the buffer, and the next chunk is appended
  whole. The chunks may end at frame boundaries or inside a frame.
\<close>

theorem reassembly_without_framing_loss:
  assumes "frameLocal fromHexString"
    and "includes_str tok ''IN'' \<or> includes_str tok ''OUT''"
    and "waits fromHexString tok st chunks c"
  shows "outcome_observed
           (run fromHexString st
              (map (\<lambda>(t, c). traceRow ''0'' t tok c) chunks @ [traceRow ''0'' t tok c]))
         = outcome_observed
           (run fromHexString st [traceRow ''0'' t' tok (concat (map snd chunks) @ c)])"
proof -
  have "(\<lambda>(t, c). traceRow ''0'' t tok c) = (\<lambda>tc. traceRow ''0'' (fst tc) tok (snd tc))"
    by (simp add: fun_eq_iff)
  with waits_merge[OF assms(1,2,3), of t t'] show ?thesis by simp
qed

theorem reassembly_without_framing_loss_witness:
  "frameLocal sampleDecoder
   \<and> acceptedAt sampleDecoder ''5504AAAA''
       = Some \<lparr>length_pkt = 4, commandType = 0, ackType = 0, sequenceID = 0,
               isValid = True, toShortString = ''5504AAAA''\<rparr>
   \<and> (includes_str ''IN txn'' ''IN'' \<or> includes_str ''IN txn'' ''OUT'')
   \<and> waits sampleDecoder ''IN txn'' initialState
        [(''t1'', ''55 04 AA AA''), (''t2'', ''55 04 BB BB 55'')] ''04 CC CC''
   \<and> outcome_observed
        (run sampleDecoder initialState
           (map (\<lambda>(t, c). traceRow ''0'' t ''IN txn'' c)
                [(''t1'', ''55 04 AA AA''), (''t2'', ''55 04 BB BB 55'')]
            @ [traceRow ''0'' ''t3'' ''IN txn'' ''04 CC CC'']))
     = outcome_observed
        (run sampleDecoder initialState
           [traceRow ''0'' ''t9'' ''IN txn''
              (concat (map snd [(''t1'', ''55 04 AA AA''), (''t2'', ''55 04 BB BB 55'')])
               @ ''04 CC CC'')])
   \<and> run sampleDecoder initialState
        [traceRow ''0'' ''t1'' ''IN txn'' ''55 04 AA AA'',
         traceRow ''0'' ''t2'' ''IN txn'' ''55 04 BB BB 55'',
         traceRow ''0'' ''t3'' ''IN txn'' ''04 CC CC'']
     = Some (Inr \<lparr>results =
          [\<lparr>ParsedData.timestamp = ''t1'', ParsedData.direction = RX,
            ParsedData.packet = \<lparr>length_pkt = 4, commandType = 0, ackType = 0,
              sequenceID = 0, isValid = True, toShortString = ''5504AAAA''\<rparr>\<rparr>,
           \<lparr>ParsedData.timestamp = ''t2'', ParsedData.direction = RX,
            ParsedData.packet = \<lparr>length_pkt = 4, commandType = 0, ackType = 0,
              sequenceID = 0, isValid = True, toShortString = ''5504BBBB''\<rparr>\<rparr>,
           \<lparr>ParsedData.timestamp = ''t3'', ParsedData.direction = RX,
            ParsedData.packet = \<lparr>length_pkt = 4, commandType = 0, ackType = 0,
              sequenceID = 0, isValid = True, toShortString = ''5504CCCC''\<rparr>\<rparr>],
          rxCurrentHexString = [], txCurrentHexString = [], processed = 3, skipped = 0\<rparr>)
   \<and> run sampleDecoder initialState
        [traceRow ''0'' ''t9'' ''IN txn'' ''55 04 AA AA55 04 BB BB 5504 CC CC'']
     = Some (Inr \<lparr>results =
          [\<lparr>ParsedData.timestamp = ''t9'', ParsedData.direction = RX,
            ParsedData.packet = \<lparr>length_pkt = 4, commandType = 0, ackType = 0,
              sequenceID = 0, isValid = True, toShortString = ''5504AAAA''\<rparr>\<rparr>,
           \<lparr>ParsedData.timestamp = ''t9'', ParsedData.direction = RX,
            ParsedData.packet = \<lparr>length_pkt = 4, commandType = 0, ackType = 0,
              sequenceID = 0, isValid = True, toShortString = ''5504BBBB''\<rparr>\<rparr>,
           \<lparr>ParsedData.timestamp = ''t9'', ParsedData.direction = RX,
            ParsedData.packet = \<lparr>length_pkt = 4, commandType = 0, ackType = 0,
              sequenceID = 0, isValid = True, toShortString = ''5504CCCC''\<rparr>\<rparr>],
          rxCurrentHexString = [], txCurrentHexString = [], processed = 1, skipped = 0\<rparr>)"
proof -
  have f: "frameLocal sampleDecoder" by (rule frameLocal_sampleDecoder)
  have a: "acceptedAt sampleDecoder ''5504AAAA''
       = Some \<lparr>length_pkt = 4, commandType = 0, ackType = 0, sequenceID = 0,
               isValid = True, toShortString = ''5504AAAA''\<rparr>"
    by code_simp
  have t: "includes_str ''IN txn'' ''IN'' \<or> includes_str ''IN txn'' ''OUT''"
    by code_simp
  have w: "waits sampleDecoder ''IN txn'' initialState
        [(''t1'', ''55 04 AA AA''), (''t2'', ''55 04 BB BB 55'')] ''04 CC CC''"
    by code_simp
  note e = reassembly_without_framing_loss[OF f t w, of "''t3''" "''t9''"]
  have r1: "run sampleDecoder initialState
        [traceRow ''0'' ''t1'' ''IN txn'' ''55 04 AA AA'',
         traceRow ''0'' ''t2'' ''IN txn'' ''55 04 BB BB 55'',
         traceRow ''0'' ''t3'' ''IN txn'' ''04 CC CC'']
     = Some (Inr \<lparr>results =
          [\<lparr>ParsedData.timestamp = ''t1'', ParsedData.direction = RX,
            ParsedData.packet = \<lparr>length_pkt = 4, commandType = 0, ackType = 0,
              sequenceID = 0, isValid = True, toShortString = ''5504AAAA''\<rparr>\<rparr>,
           \<lparr>ParsedData.timestamp = ''t2'', ParsedData.direction = RX,
            ParsedData.packet = \<lparr>length_pkt = 4, commandType = 0, ackType = 0,
              sequenceID = 0, isValid = True, toShortString = ''5504BBBB''\<rparr>\<rparr>,
           \<lparr>ParsedData.timestamp = ''t3'', ParsedData.direction = RX,
            ParsedData.packet = \<lparr>length_pkt = 4, commandType = 0, ackType = 0,
              sequenceID = 0, isValid = True, toShortString = ''5504CCCC''\<rparr>\<rparr>],
          rxCurrentHexString = [], txCurrentHexString = [], processed = 3, skipped = 0\<rparr>)"
    by code_simp
  have r2: "run sampleDecoder initialState
        [traceRow ''0'' ''t9'' ''IN txn'' ''55 04 AA AA55 04 BB BB 5504 CC CC'']
     = Some (Inr \<lparr>results =
          [\<lparr>ParsedData.timestamp = ''t9'', ParsedData.direction = RX,
            ParsedData.packet = \<lparr>length_pkt = 4, commandType = 0, ackType = 0,
              sequenceID = 0, isValid = True, toShortString = ''5504AAAA''\<rparr>\<rparr>,
           \<lparr>ParsedData.timestamp = ''t9'', ParsedData.direction = RX,
            ParsedData.packet = \<lparr>length_pkt = 4, commandType = 0, ackType = 0,
              sequenceID = 0, isValid = True, toShortString = ''5504BBBB''\<rparr>\<rparr>,
           \<lparr>ParsedData.timestamp = ''t9'', ParsedData.direction = RX,
            ParsedData.packet = \<lparr>length_pkt = 4, commandType = 0, ackType = 0,
              sequenceID = 0, isValid = True, toShortString = ''5504CCCC''\<rparr>\<rparr>],
          rxCurrentHexString = [], txCurrentHexString = [], processed = 1, skipped = 0\<rparr>)"
    by code_simp
  from f a t w e r1 r2 show ?thesis by (intro conjI)
qed


end
